theory Spec2Isabelle
  imports Complex_Main
begin

section \<open>Python strings\<close>

text \<open>
  Python \<open>str\<close> values are modelled as \<open>string\<close>. Replies are read as ASCII text:
  \<open>str.lower\<close> maps \<open>A\<close>..\<open>Z\<close> to \<open>a\<close>..\<open>z\<close> and leaves every other character alone.
\<close>

definition ascii_upper :: string where
  "ascii_upper = ''ABCDEFGHIJKLMNOPQRSTUVWXYZ''"

definition ascii_lower :: string where
  "ascii_lower = ''abcdefghijklmnopqrstuvwxyz''"

definition lower_char :: "char \<Rightarrow> char" where
  "lower_char c = (case map_of (zip ascii_upper ascii_lower) c of Some d \<Rightarrow> d | None \<Rightarrow> c)"

definition str_lower :: "string \<Rightarrow> string" where
  "str_lower s = map lower_char s"

definition startswith :: "string \<Rightarrow> string \<Rightarrow> bool" where
  "startswith s p = (take (length p) s = p)"

text \<open>\<open>needle in hay\<close> on strings.\<close>

fun str_contains :: "string \<Rightarrow> string \<Rightarrow> bool" where
  "str_contains needle [] = (needle = [])"
| "str_contains needle (c # cs) = (startswith (c # cs) needle \<or> str_contains needle cs)"

definition digit_chars :: string where
  "digit_chars = ''0123456789''"

fun str_nat :: "nat \<Rightarrow> string" where
  "str_nat n = (if n < 10 then [digit_chars ! n] else str_nat (n div 10) @ [digit_chars ! (n mod 10)])"

declare str_nat.simps [simp del]

text \<open>\<open>str(i)\<close>, as an f-string formats an \<open>int\<close>.\<close>

definition str_int :: "int \<Rightarrow> string" where
  "str_int i = (if i < 0 then CHR ''-'' # str_nat (nat (- i)) else str_nat (nat i))"

definition is_digit :: "char \<Rightarrow> bool" where
  "is_digit c = (c \<in> set digit_chars)"

definition digit_val :: "char \<Rightarrow> int" where
  "digit_val c = int (of_char c) - 48"

datatype py_error = TypeError | ValueError | IndexError

text \<open>\<open>int(s)\<close> on a string: decimal digits only, here; anything else raises.\<close>

definition py_int :: "string \<Rightarrow> py_error + int" where
  "py_int s = (if s \<noteq> [] \<and> list_all is_digit s
               then Inr (foldl (\<lambda>a c. 10 * a + digit_val c) 0 s) else Inl ValueError)"

section \<open>Regular expressions, as \<open>re.search\<close> runs them\<close>

text \<open>
  The constructs the patterns of \<open>workflow.py\<close> use: literals, the classes \<open>\s\<close>, \<open>\d\<close> and
  \<open>[:\s]\<close> under \<open>*\<close> and \<open>{m,n}\<close> (greedy), alternation, the optional group \<open>(..)?\<close>,
  capture group 1, and the word boundary \<open>\b\<close>.
\<close>

datatype cclass = cls_space | cls_digit | cls_colon_space

definition is_space :: "char \<Rightarrow> bool" where
  "is_space c = (of_char c \<in> set [9, 10, 11, 12, 13, 28, 29, 30, 31, 32 :: nat])"

definition is_word :: "char \<Rightarrow> bool" where
  "is_word c = (c \<in> set (ascii_upper @ ascii_lower @ digit_chars @ ''_''))"

fun in_class :: "cclass \<Rightarrow> char \<Rightarrow> bool" where
  "in_class cls_space c = is_space c"
| "in_class cls_digit c = is_digit c"
| "in_class cls_colon_space c = (c = CHR '':'' \<or> is_space c)"

datatype regex =
    Eps
  | Lit string
  | Star cclass
  | Rep cclass nat nat
  | Seq regex regex
  | Alt regex regex
  | Opt regex
  | Group regex
  | WordB

text \<open>
  A matcher state: the character before the position (for \<open>\b\<close>), the text still to
  read, and what group 1 has captured.
\<close>

type_synonym mstate = "char option \<times> string \<times> string option"

definition advance :: "nat \<Rightarrow> mstate \<Rightarrow> mstate" where
  "advance k st = (case st of (p, s, g) \<Rightarrow>
     (if k = 0 then p else Some (s ! (k - 1)), drop k s, g))"

definition run_length :: "cclass \<Rightarrow> mstate \<Rightarrow> nat" where
  "run_length c st = (case st of (p, s, g) \<Rightarrow> length (takeWhile (in_class c) s))"

definition at_boundary :: "char option \<Rightarrow> string \<Rightarrow> bool" where
  "at_boundary p s =
     ((case p of None \<Rightarrow> False | Some c \<Rightarrow> is_word c) \<noteq> (case s of [] \<Rightarrow> False | c # _ \<Rightarrow> is_word c))"

text \<open>
  All the ways a pattern matches at a position, in the order the backtracking matcher
  tries them: a greedy repetition tries the longest run first, an alternation its left
  branch first, an optional group its presence first.
\<close>

fun rmatch :: "regex \<Rightarrow> mstate \<Rightarrow> mstate list" where
  "rmatch Eps st = [st]"
| "rmatch (Lit l) st = (case st of (p, s, g) \<Rightarrow>
     (if startswith s l then [advance (length l) (p, s, g)] else []))"
| "rmatch (Star c) st = map (\<lambda>k. advance k st) (rev [0..<Suc (run_length c st)])"
| "rmatch (Rep c lo hi) st = map (\<lambda>k. advance k st) (rev [lo..<Suc (min hi (run_length c st))])"
| "rmatch (Seq a b) st = concat (map (rmatch b) (rmatch a st))"
| "rmatch (Alt a b) st = rmatch a st @ rmatch b st"
| "rmatch (Opt a) st = rmatch a st @ [st]"
| "rmatch (Group a) st = (case st of (p, s, g) \<Rightarrow>
     map (\<lambda>r. case r of (p', s', g') \<Rightarrow> (p', s', Some (take (length s - length s') s)))
       (rmatch a (p, s, g)))"
| "rmatch WordB st = (case st of (p, s, g) \<Rightarrow> (if at_boundary p s then [st] else []))"

text \<open>\<open>re.search\<close>: the first match of the leftmost position that has one.\<close>

fun search_from :: "regex \<Rightarrow> char option \<Rightarrow> string \<Rightarrow> mstate option" where
  "search_from r p [] = (case rmatch r (p, [], None) of [] \<Rightarrow> None | m # _ \<Rightarrow> Some m)"
| "search_from r p (c # cs) =
     (case rmatch r (p, c # cs, None) of [] \<Rightarrow> search_from r (Some c) cs | m # _ \<Rightarrow> Some m)"

definition re_search :: "regex \<Rightarrow> string \<Rightarrow> mstate option" where
  "re_search r s = search_from r None s"

definition group1 :: "mstate \<Rightarrow> string option" where
  "group1 m = (case m of (p, s, g) \<Rightarrow> g)"

definition cat :: "regex list \<Rightarrow> regex" where
  "cat rs = foldr Seq rs Eps"

text \<open>The six score patterns of \<open>RiskAnalyserAgentExecutor.handle\<close>, most specific first.\<close>

definition score_group :: regex where
  "score_group = Group (Rep cls_digit 1 3)"

definition patterns :: "regex list" where
  "patterns =
    [ cat [Lit ''risk'', Star cls_space, Lit ''score'', Star cls_colon_space, score_group,
           Opt (cat [Star cls_space, Lit ''/'', Star cls_space, Lit ''100''])],
      cat [Lit ''score'', Star cls_colon_space, score_group, Star cls_space, Lit ''/'',
           Star cls_space, Lit ''100''],
      cat [score_group, Star cls_space, Alt (Lit ''out of'') (Lit ''/''), Star cls_space,
           Lit ''100''],
      cat [Lit ''**risk'', Star cls_colon_space, score_group, Lit ''**''],
      cat [Lit ''overall'', Star cls_space, Lit ''risk'', Star cls_colon_space, score_group],
      cat [Lit ''assessment'', Star cls_colon_space, score_group] ]"

text \<open>
  The three level patterns of the fallback. Only whether they match is used, so their
  groups are not captured.
\<close>

definition high_pattern :: regex where
  "high_pattern = cat [WordB, Alt (Lit ''high'') (Alt (Lit ''critical'') (Lit ''severe'')),
                       Star cls_space, Opt (Lit ''risk'')]"

definition medium_pattern :: regex where
  "medium_pattern = cat [WordB, Alt (Lit ''medium'') (Lit ''moderate''),
                         Star cls_space, Opt (Lit ''risk'')]"

definition low_pattern :: regex where
  "low_pattern = cat [WordB, Alt (Lit ''low'') (Lit ''minimal''),
                      Star cls_space, Opt (Lit ''risk'')]"

section \<open>Messages, agents and what a handler does with its context\<close>

record ChatMessage =
  msg_role :: string
  msg_text :: string

text \<open>
  \<open>await agent.run(messages)\<close>: the agent is a collaborator, given as a function from the
  messages it is run on to what the call does. It returns a response with its messages;
  or it raises an exception that \<open>except Exception\<close> catches, given by its text
  \<open>str(e)\<close>; or it raises one that \<open>except Exception\<close> does not catch, a
  \<open>BaseException\<close> outside \<open>Exception\<close> such as \<open>asyncio.CancelledError\<close> or
  \<open>KeyboardInterrupt\<close>, given by its name.
\<close>

datatype agent_outcome =
    Response "ChatMessage list"
  | RaisesException string
  | RaisesBaseException string

type_synonym ChatAgent = "ChatMessage list \<Rightarrow> agent_outcome"

record Executor =
  agent :: ChatAgent
  executor_id :: string

text \<open>
  The calls a handler makes on its \<open>WorkflowContext\<close>, in order, when it returns; or the
  exception that leaves it.
\<close>

datatype 'p ctx_call = send_message 'p | yield_output 'p

datatype 'p handler_outcome = Returned "'p ctx_call list" | Raised string

text \<open>\<open>response.messages[-1].text if response.messages else "No response"\<close>\<close>

definition last_text :: "ChatMessage list \<Rightarrow> string" where
  "last_text messages = (if messages = [] then ''No response'' else msg_text (last messages))"

section \<open>The fraud detection workflow (workflows/workflow.py)\<close>

text \<open>
  The handlers are translated with their \<open>try\<close>/\<open>except Exception\<close>: what can raise
  inside the \<open>try\<close> is the agent's run and, in the risk analyser,
  \<open>int(match.group(1))\<close>. An \<open>Exception\<close> takes the \<open>except\<close> branch; an exception
  outside \<open>Exception\<close> is not caught and leaves the handler, which has then made no
  call on its context. The spans,
  metrics and business events of the \<open>telemetry\<close> module (not among the sources) return
  nothing the handlers use and are left out; they and the calls on the context are
  taken not to raise. An amount is a Python float that the handlers only pass on: the
  type is left abstract.
\<close>

typedecl pyfloat

record AnalysisRequest =
  req_transaction_id :: string
  req_customer_id :: string
  req_amount :: "pyfloat option"
  req_currency :: "string option"

record CustomerDataResponse =
  cd_customer_id :: string
  cd_transaction_id :: string
  cd_analysis :: string
  cd_status :: string
  cd_amount :: "pyfloat option"
  cd_currency :: "string option"

record RiskAnalysisResponse =
  ra_transaction_id :: string
  ra_customer_id :: string
  ra_risk_analysis :: string
  ra_risk_score :: int
  ra_risk_level :: string
  ra_recommendation :: string
  ra_status :: string
  ra_amount :: "pyfloat option"
  ra_currency :: "string option"
  ra_model_confidence :: "rat option"

record FraudAlertResponse =
  fa_transaction_id :: string
  fa_customer_id :: string
  fa_alert_response :: string
  fa_alert_created :: bool
  fa_workflow_status :: string
  fa_risk_score :: int
  fa_risk_level :: string

text \<open>What travels along the edges of the workflow, and out of it.\<close>

datatype payload =
    Req AnalysisRequest
  | Cust CustomerDataResponse
  | Risk RiskAnalysisResponse
  | Alert FraudAlertResponse

subsection \<open>CustomerDataAgentExecutor\<close>

definition customer_prompt :: "AnalysisRequest \<Rightarrow> string" where
  "customer_prompt request =
     ''Analyze customer '' @ req_customer_id request @ '' and their transactions '' @
     ''comprehensively for fraud detection purposes.''"

definition CustomerDataAgentExecutor_handle ::
  "Executor \<Rightarrow> AnalysisRequest \<Rightarrow> payload handler_outcome" where
  "CustomerDataAgentExecutor_handle self request =
     (case agent self [\<lparr>msg_role = ''user'', msg_text = customer_prompt request\<rparr>] of
        Response messages \<Rightarrow>
          Returned [send_message (Cust
            \<lparr>cd_customer_id = req_customer_id request,
             cd_transaction_id = req_transaction_id request,
             cd_analysis = last_text messages,
             cd_status = ''SUCCESS'',
             cd_amount = req_amount request,
             cd_currency = req_currency request\<rparr>)]
      | RaisesException e \<Rightarrow>
          Returned [send_message (Cust
            \<lparr>cd_customer_id = req_customer_id request,
             cd_transaction_id = req_transaction_id request,
             cd_analysis = ''Error: '' @ e,
             cd_status = ''ERROR'',
             cd_amount = None,
             cd_currency = Some ''USD''\<rparr>)]
      | RaisesBaseException e \<Rightarrow> Raised e)"

subsection \<open>RiskAnalyserAgentExecutor\<close>

definition risk_prompt :: "CustomerDataResponse \<Rightarrow> string" where
  "risk_prompt customer_response =
     ''Based on this customer data analysis, perform a comprehensive '' @
     ''risk assessment:\<newline>\<newline>'' @ cd_analysis customer_response @ ''\<newline>\<newline>'' @
     ''Transaction ID: '' @ cd_transaction_id customer_response @ ''\<newline>'' @
     ''Customer ID: '' @ cd_customer_id customer_response @ ''\<newline>\<newline>'' @
     ''Provide a complete risk assessment with score (0-100), level '' @
     ''(LOW/MEDIUM/HIGH), and recommendation (ALLOW/INVESTIGATE/BLOCK).''"

text \<open>
  The loop over the patterns: the first pattern that matches with a score between 0 and
  100 gives the score; a match outside that range goes on to the next pattern.
  \<open>int(match.group(1))\<close> raises when the group is missing or is not a number.
\<close>

fun parse_score :: "regex list \<Rightarrow> string \<Rightarrow> py_error + int option" where
  "parse_score [] risk_analysis = Inr None"
| "parse_score (pattern # rest) risk_analysis =
     (case re_search pattern (str_lower risk_analysis) of
        None \<Rightarrow> parse_score rest risk_analysis
      | Some m \<Rightarrow>
          (case group1 m of
             None \<Rightarrow> Inl TypeError
           | Some d \<Rightarrow>
               (case py_int d of
                  Inl err \<Rightarrow> Inl err
                | Inr score \<Rightarrow>
                    if 0 \<le> score \<and> score \<le> 100 then Inr (Some score)
                    else parse_score rest risk_analysis)))"

definition matches :: "regex \<Rightarrow> string \<Rightarrow> bool" where
  "matches r s = (re_search r s \<noteq> None)"

text \<open>The fallback: a level word in the text, else the default.\<close>

definition fallback_score :: "string \<Rightarrow> int" where
  "fallback_score risk_analysis =
     (if matches high_pattern (str_lower risk_analysis) then 85
      else if matches medium_pattern (str_lower risk_analysis) then 55
      else if matches low_pattern (str_lower risk_analysis) then 25
      else 50)"

definition risk_level :: "int \<Rightarrow> string" where
  "risk_level risk_score =
     (if risk_score \<ge> 75 then ''HIGH'' else if risk_score \<ge> 40 then ''MEDIUM'' else ''LOW'')"

definition recommendation :: "string \<Rightarrow> string" where
  "recommendation level =
     (if level = ''HIGH'' then ''BLOCK''
      else if level = ''MEDIUM'' then ''INVESTIGATE'' else ''ALLOW'')"

definition str_of_error :: "py_error \<Rightarrow> string" where
  "str_of_error err = (case err of TypeError \<Rightarrow> ''TypeError''
     | ValueError \<Rightarrow> ''ValueError'' | IndexError \<Rightarrow> ''IndexError'')"

definition risk_error_response :: "CustomerDataResponse \<Rightarrow> string \<Rightarrow> RiskAnalysisResponse" where
  "risk_error_response customer_response e =
     \<lparr>ra_transaction_id = cd_transaction_id customer_response,
      ra_customer_id = cd_customer_id customer_response,
      ra_risk_analysis = ''Error: '' @ e,
      ra_risk_score = 0,
      ra_risk_level = ''UNKNOWN'',
      ra_recommendation = ''INVESTIGATE'',
      ra_status = ''ERROR'',
      ra_amount = None,
      ra_currency = Some ''USD'',
      ra_model_confidence = None\<rparr>"

definition risk_success_response ::
  "CustomerDataResponse \<Rightarrow> string \<Rightarrow> int \<Rightarrow> RiskAnalysisResponse" where
  "risk_success_response customer_response risk_analysis risk_score =
     \<lparr>ra_transaction_id = cd_transaction_id customer_response,
      ra_customer_id = cd_customer_id customer_response,
      ra_risk_analysis = risk_analysis,
      ra_risk_score = risk_score,
      ra_risk_level = risk_level risk_score,
      ra_recommendation = recommendation (risk_level risk_score),
      ra_status = ''SUCCESS'',
      ra_amount = cd_amount customer_response,
      ra_currency = cd_currency customer_response,
      ra_model_confidence = Some (of_int (abs (risk_score - 50)) / 50)\<rparr>"

definition RiskAnalyserAgentExecutor_handle ::
  "Executor \<Rightarrow> CustomerDataResponse \<Rightarrow> payload handler_outcome" where
  "RiskAnalyserAgentExecutor_handle self customer_response =
     (case agent self [\<lparr>msg_role = ''user'', msg_text = risk_prompt customer_response\<rparr>] of
        Response messages \<Rightarrow>
          (let risk_analysis = last_text messages in
           case parse_score patterns risk_analysis of
             Inl err \<Rightarrow>
               Returned [send_message (Risk
                 (risk_error_response customer_response (str_of_error err)))]
           | Inr parsed \<Rightarrow>
               (let risk_score =
                      (case parsed of Some score \<Rightarrow> score
                       | None \<Rightarrow> fallback_score risk_analysis)
                in Returned [send_message (Risk
                     (risk_success_response customer_response risk_analysis risk_score))]))
      | RaisesException e \<Rightarrow>
          Returned [send_message (Risk (risk_error_response customer_response e))]
      | RaisesBaseException e \<Rightarrow> Raised e)"

subsection \<open>FraudAlertAgentExecutor\<close>

definition severity :: "int \<Rightarrow> string" where
  "severity risk_score =
     (if risk_score \<ge> 90 then ''CRITICAL''
      else if risk_score \<ge> 75 then ''HIGH''
      else if risk_score \<ge> 50 then ''MEDIUM'' else ''LOW'')"

definition fraud_prompt :: "RiskAnalysisResponse \<Rightarrow> string" where
  "fraud_prompt risk_response =
     ''Based on this risk analysis, determine if a fraud alert should '' @
     ''be created:\<newline>\<newline>'' @
     ''Risk Analysis:\<newline>'' @ ra_risk_analysis risk_response @ ''\<newline>\<newline>'' @
     ''Transaction ID: '' @ ra_transaction_id risk_response @ ''\<newline>'' @
     ''Customer ID: '' @ ra_customer_id risk_response @ ''\<newline>'' @
     ''Risk Score: '' @ str_int (ra_risk_score risk_response) @ ''/100\<newline>'' @
     ''Risk Level: '' @ ra_risk_level risk_response @ ''\<newline>'' @
     ''Recommendation: '' @ ra_recommendation risk_response @ ''\<newline>'' @
     ''Severity: '' @ severity (ra_risk_score risk_response) @ ''\<newline>\<newline>'' @
     ''If risk score >= 40, create a fraud alert. Otherwise explain '' @
     ''why no alert is needed.''"

definition alert_created :: "string \<Rightarrow> int \<Rightarrow> bool" where
  "alert_created alert_response risk_score =
     (str_contains ''alert created'' (str_lower alert_response) \<or> risk_score \<ge> 40)"

definition FraudAlertAgentExecutor_handle ::
  "Executor \<Rightarrow> RiskAnalysisResponse \<Rightarrow> payload handler_outcome" where
  "FraudAlertAgentExecutor_handle self risk_response =
     (case agent self [\<lparr>msg_role = ''user'', msg_text = fraud_prompt risk_response\<rparr>] of
        Response messages \<Rightarrow>
          (let alert_response = last_text messages in
           Returned [yield_output (Alert
             \<lparr>fa_transaction_id = ra_transaction_id risk_response,
              fa_customer_id = ra_customer_id risk_response,
              fa_alert_response = alert_response,
              fa_alert_created = alert_created alert_response (ra_risk_score risk_response),
              fa_workflow_status = ''SUCCESS'',
              fa_risk_score = ra_risk_score risk_response,
              fa_risk_level = ra_risk_level risk_response\<rparr>)])
      | RaisesException e \<Rightarrow>
          Returned [yield_output (Alert
            \<lparr>fa_transaction_id = ra_transaction_id risk_response,
             fa_customer_id = ra_customer_id risk_response,
             fa_alert_response = ''Error: '' @ e,
             fa_alert_created = False,
             fa_workflow_status = ''ERROR'',
             fa_risk_score = ra_risk_score risk_response,
             fa_risk_level = ra_risk_level risk_response\<rparr>)]
      | RaisesBaseException e \<Rightarrow> Raised e)"

subsection \<open>The consuming loop of \<open>run_fraud_detection_workflow\<close>\<close>

text \<open>
  The events of the stream. The loop only tests whether an event is a
  \<open>WorkflowOutputEvent\<close>; the states of a status event are named as the specification
  names them.
\<close>

datatype RunState = INITIALIZING | RUNNING | COMPLETED | FAILED

datatype 'p WorkflowEvent = WorkflowStatusEvent RunState | WorkflowOutputEvent 'p

text \<open>
  \<open>final_result = None; async for event in ...: if isinstance(event, WorkflowOutputEvent):
  final_result = event.data\<close>, with \<open>final_result\<close> as the accumulator.
\<close>

fun consume :: "'p WorkflowEvent list \<Rightarrow> 'p option \<Rightarrow> 'p option" where
  "consume [] final_result = final_result"
| "consume (WorkflowOutputEvent d # events) final_result = consume events (Some d)"
| "consume (WorkflowStatusEvent s # events) final_result = consume events final_result"

text \<open>
  \<open>run_fraud_detection_workflow\<close>: the request is built from the arguments, the stream of
  the built workflow's \<open>run_stream\<close> (the library's, a parameter here) is consumed, and
  the last value of \<open>final_result\<close> is returned. A stream that never ends is \<open>None\<close>, and
  then the function does not return; Python's \<open>None\<close> is the inner \<open>None\<close>.
\<close>

definition run_fraud_detection_workflow ::
  "(payload \<Rightarrow> payload WorkflowEvent list option) \<Rightarrow> string \<Rightarrow> string \<Rightarrow> pyfloat option \<Rightarrow>
     string option \<Rightarrow> payload option option" where
  "run_fraud_detection_workflow stream_of transaction_id customer_id amount currency =
     map_option (\<lambda>events. consume events None)
       (stream_of (Req
         \<lparr>req_transaction_id = transaction_id,
          req_customer_id = customer_id,
          req_amount = amount,
          req_currency = currency\<rparr>))"

text \<open>The payloads of the output events of a stream, in order.\<close>

definition outputs :: "'p WorkflowEvent list \<Rightarrow> 'p list" where
  "outputs events = concat (map (\<lambda>ev. case ev of WorkflowOutputEvent d \<Rightarrow> [d] | _ \<Rightarrow> []) events)"

section \<open>The sequential demo (orchestration/demo/sequential_agents.py)\<close>

text \<open>
  The researcher takes one message or a list; the other stages take the list. No handler
  catches: an exception of the agent, or of \<open>response.messages[-1]\<close> on an empty response,
  leaves the handler. \<open>messages.extend(response.messages)\<close> appends to the received list.
\<close>

datatype seq_payload = Message ChatMessage | Messages "ChatMessage list"

definition ResearcherAgentV2Executor_handle ::
  "Executor \<Rightarrow> seq_payload \<Rightarrow> seq_payload handler_outcome" where
  "ResearcherAgentV2Executor_handle self message =
     (let messages = (case message of Messages ms \<Rightarrow> ms | Message m \<Rightarrow> [m]) in
      case agent self messages of
        RaisesException e \<Rightarrow> Raised e
      | RaisesBaseException e \<Rightarrow> Raised e
      | Response response_messages \<Rightarrow>
          if response_messages = [] then Raised ''list index out of range''
          else Returned [send_message (Messages (messages @ response_messages))])"

definition WriterAgentV2Executor_handle ::
  "Executor \<Rightarrow> ChatMessage list \<Rightarrow> seq_payload handler_outcome" where
  "WriterAgentV2Executor_handle self messages =
     (case agent self messages of
        RaisesException e \<Rightarrow> Raised e
      | RaisesBaseException e \<Rightarrow> Raised e
      | Response response_messages \<Rightarrow>
          if response_messages = [] then Raised ''list index out of range''
          else Returned [send_message (Messages (messages @ response_messages))])"

definition ReviewerAgentV2Executor_handle ::
  "Executor \<Rightarrow> ChatMessage list \<Rightarrow> seq_payload handler_outcome" where
  "ReviewerAgentV2Executor_handle self messages =
     (case agent self messages of
        RaisesException e \<Rightarrow> Raised e
      | RaisesBaseException e \<Rightarrow> Raised e
      | Response response_messages \<Rightarrow>
          if response_messages = [] then Raised ''list index out of range''
          else Returned [yield_output (Messages (messages @ response_messages))])"

text \<open>
  The three handlers in the order of the chain, on an initial input: what the reviewer
  yields when every stage ran, \<open>None\<close> when one of them raised.
\<close>

definition sequential_chain ::
  "Executor \<Rightarrow> Executor \<Rightarrow> Executor \<Rightarrow> seq_payload \<Rightarrow> ChatMessage list option" where
  "sequential_chain researcher writer reviewer task =
     (case ResearcherAgentV2Executor_handle researcher task of
        Returned [send_message (Messages m1)] \<Rightarrow>
          (case WriterAgentV2Executor_handle writer m1 of
             Returned [send_message (Messages m2)] \<Rightarrow>
               (case ReviewerAgentV2Executor_handle reviewer m2 of
                  Returned [yield_output (Messages m3)] \<Rightarrow> Some m3
                | _ \<Rightarrow> None)
           | _ \<Rightarrow> None)
      | _ \<Rightarrow> None)"

definition history_of :: "seq_payload \<Rightarrow> ChatMessage list" where
  "history_of message = (case message of Messages ms \<Rightarrow> ms | Message m \<Rightarrow> [m])"

text \<open>Agents for the examples: one that answers with the given messages, one that raises.\<close>

definition replying :: "ChatMessage list \<Rightarrow> ChatAgent" where
  "replying response_messages = (\<lambda>messages. Response response_messages)"

definition raising :: "string \<Rightarrow> ChatAgent" where
  "raising e = (\<lambda>messages. RaisesException e)"

definition cancelled :: ChatAgent where
  "cancelled = (\<lambda>messages. RaisesBaseException ''CancelledError'')"

text \<open>An agent whose run raises nothing but what \<open>except Exception\<close> catches.\<close>

definition catchable :: "ChatAgent \<Rightarrow> bool" where
  "catchable a = (\<forall>messages e. a messages \<noteq> RaisesBaseException e)"

definition assistant :: "string \<Rightarrow> ChatMessage" where
  "assistant t = \<lparr>msg_role = ''assistant'', msg_text = t\<rparr>"

definition user :: "string \<Rightarrow> ChatMessage" where
  "user t = \<lparr>msg_role = ''user'', msg_text = t\<rparr>"

definition executor_of :: "string \<Rightarrow> ChatAgent \<Rightarrow> Executor" where
  "executor_of name a = \<lparr>agent = a, executor_id = name\<rparr>"

section \<open>Shapes of patterns\<close>

text \<open>
  Two syntactic facts about a pattern, used to show that \<open>match.group(1)\<close> is a number
  for each of the six score patterns: it has no capture group, or its group 1 is
  \<open>(\d{m,n})\<close> with \<open>m \<ge> 1\<close> and is always passed.
\<close>

fun no_group :: "regex \<Rightarrow> bool" where
  "no_group (Group a) = False"
| "no_group (Seq a b) = (no_group a \<and> no_group b)"
| "no_group (Alt a b) = (no_group a \<and> no_group b)"
| "no_group (Opt a) = no_group a"
| "no_group r = True"

fun captures_number :: "regex \<Rightarrow> bool" where
  "captures_number (Group (Rep c lo hi)) = (c = cls_digit \<and> 1 \<le> lo)"
| "captures_number (Seq a b) =
     ((no_group a \<and> captures_number b) \<or> (captures_number a \<and> no_group b))"
| "captures_number r = False"

definition good_number :: "string \<Rightarrow> bool" where
  "good_number d = (d \<noteq> [] \<and> list_all is_digit d)"

section \<open>The workflow engine\<close>

text \<open>
  \<open>WorkflowBuilder\<close> and \<open>run_stream\<close> come from the \<open>agent_framework\<close> package, which is
  not among the sources: only the calls on them are. The engine below follows the
  specification of the repository (its sections 3, 4, 7 and 9); the handlers it runs are
  the ones above. In the specification's vocabulary \<open>send_message\<close> is \<open>emit\<close>,
  \<open>yield_output\<close> is \<open>complete\<close>, \<open>WorkflowStatusEvent\<close> is \<open>StatusEvent\<close> and
  \<open>WorkflowOutputEvent\<close> is \<open>OutputEvent\<close>.
\<close>

type_synonym stage_id = string

type_synonym 'p handler = "'p \<Rightarrow> 'p handler_outcome"

type_synonym 'p factory = "unit \<Rightarrow> 'p handler"

text \<open>
  Modelled from the spec: the Graph Builder's mutable state, which \<open>agent_framework\<close>
  keeps (section 4.1: the stages registered with their factories, the edges recorded, the
  entry stage designated, if any).
\<close>

record 'p Builder =
  b_stages :: "(stage_id \<times> 'p factory) list"
  b_edges :: "(stage_id \<times> stage_id) list"
  b_entry :: "stage_id option"

text \<open>
  Modelled from the spec: the immutable Graph that \<open>build\<close> of \<open>agent_framework\<close> returns
  (section 3: the stage set, the edge set and one designated entry stage).
\<close>

record 'p Graph =
  g_stages :: "(stage_id \<times> 'p factory) list"
  g_edges :: "(stage_id \<times> stage_id) list"
  g_entry :: stage_id

text \<open>
  Modelled from the spec: the build-time errors of \<open>agent_framework\<close>'s builder (sections
  4.1 and 7), \<open>InvalidGraphError\<close> listing the violations found: an unreachable stage, a
  missing entry, a duplicate edge.
\<close>

datatype violation = unreachable_stage stage_id | missing_entry | duplicate_edge stage_id stage_id

datatype build_error =
    DuplicateStageError stage_id
  | UnknownStageError stage_id
  | InvalidGraphError "violation list"

text \<open>
  Modelled from the spec: the builder \<open>WorkflowBuilder()\<close> of \<open>agent_framework\<close> as it is
  created, with nothing registered (section 4.1).
\<close>

definition WorkflowBuilder :: "'p Builder" where
  "WorkflowBuilder = \<lparr>b_stages = [], b_edges = [], b_entry = None\<rparr>"

text \<open>
  Modelled from the spec: the builder calls of \<open>agent_framework\<close> (section 4.1).
  \<open>register(id, factory)\<close> (the source's \<open>register_executor\<close>) fails on an id already
  registered; \<open>connect(sourceId, targetId)\<close> (\<open>add_edge\<close>) records an edge, its endpoints
  checked at \<open>build()\<close>; \<open>setEntry(id)\<close> (\<open>set_start_executor\<close>) fails on an unregistered
  id.
\<close>

datatype 'p builder_call =
    register stage_id "'p factory"
  | connect stage_id stage_id
  | setEntry stage_id

fun call :: "'p builder_call \<Rightarrow> 'p Builder \<Rightarrow> build_error + 'p Builder" where
  "call (register name factory) b =
     (if name \<in> set (map fst (b_stages b)) then Inl (DuplicateStageError name)
      else Inr (b\<lparr>b_stages := b_stages b @ [(name, factory)]\<rparr>))"
| "call (connect source target) b = Inr (b\<lparr>b_edges := b_edges b @ [(source, target)]\<rparr>)"
| "call (setEntry name) b =
     (if name \<in> set (map fst (b_stages b)) then Inr (b\<lparr>b_entry := Some name\<rparr>)
      else Inl (UnknownStageError name))"

text \<open>
  Modelled from the spec: a fluent chain of calls on \<open>agent_framework\<close>'s builder; the
  errors of section 4.1 surface synchronously (section 7), so the first call that fails
  ends the chain.
\<close>

fun calls :: "'p builder_call list \<Rightarrow> 'p Builder \<Rightarrow> build_error + 'p Builder" where
  "calls [] b = Inr b"
| "calls (c # cs) b = (case call c b of Inl err \<Rightarrow> Inl err | Inr b' \<Rightarrow> calls cs b')"

text \<open>
  Modelled from the spec: the reachability that \<open>build()\<close> of \<open>agent_framework\<close> validates
  (section 3: every stage is reachable from the entry stage by following edges), as a
  search. The stages reached from a list of stages by following edges: each round adds the
  targets of the edges that leave a stage already reached. A round that adds a stage
  uses up an edge whose target was not reached, so as many rounds as there are edges
  are enough.
\<close>

definition reach_step :: "(stage_id \<times> stage_id) list \<Rightarrow> stage_id list \<Rightarrow> stage_id list" where
  "reach_step edges seen =
     seen @ filter (\<lambda>t. t \<notin> set seen) (map snd (filter (\<lambda>e. fst e \<in> set seen) edges))"

fun reach :: "nat \<Rightarrow> (stage_id \<times> stage_id) list \<Rightarrow> stage_id list \<Rightarrow> stage_id list" where
  "reach 0 edges seen = seen"
| "reach (Suc n) edges seen = reach n edges (reach_step edges seen)"

definition reachable_from :: "(stage_id \<times> stage_id) list \<Rightarrow> stage_id \<Rightarrow> stage_id list" where
  "reachable_from edges entry = reach (length edges) edges [entry]"

text \<open>
  Modelled from the spec: what else \<open>build()\<close> of \<open>agent_framework\<close> looks at (section
  4.1): the endpoints of the recorded edges, and the edges recorded more than once.
\<close>

definition endpoints :: "(stage_id \<times> stage_id) list \<Rightarrow> stage_id list" where
  "endpoints edges = concat (map (\<lambda>e. [fst e, snd e]) edges)"

definition duplicates :: "'a list \<Rightarrow> 'a list" where
  "duplicates xs = filter (\<lambda>x. 1 < count_list xs x) (remdups xs)"

text \<open>
  Modelled from the spec: \<open>build()\<close> of \<open>agent_framework\<close>'s builder (sections 3 and 4.1).
  It checks the edge endpoints deferred by \<open>connect\<close> (\<open>UnknownStageError\<close>), then that an
  entry stage is set, then reachability from the entry and uniqueness of the edges
  (\<open>InvalidGraphError\<close> with the violations); otherwise it returns the Graph.
\<close>

definition build :: "'p Builder \<Rightarrow> build_error + 'p Graph" where
  "build b =
     (let names = map fst (b_stages b) in
      case filter (\<lambda>n. n \<notin> set names) (endpoints (b_edges b)) of
        u # _ \<Rightarrow> Inl (UnknownStageError u)
      | [] \<Rightarrow>
          (case b_entry b of
             None \<Rightarrow> Inl (InvalidGraphError [missing_entry])
           | Some e \<Rightarrow>
               (let vs = map unreachable_stage
                           (filter (\<lambda>n. n \<notin> set (reachable_from (b_edges b) e)) names)
                         @ map (\<lambda>d. duplicate_edge (fst d) (snd d)) (duplicates (b_edges b))
                in if vs = [] then Inr \<lparr>g_stages = b_stages b, g_edges = b_edges b, g_entry = e\<rparr>
                   else Inl (InvalidGraphError vs))))"

text \<open>
  Modelled from the spec: the outcome of a handler as \<open>agent_framework\<close>'s scheduler reads
  it (sections 6, 7 and 9): exactly one \<open>emit\<close> forwards, exactly one \<open>complete\<close>
  terminates; an exception, no call, or more than one call is a stage fault.
\<close>

datatype 'p outcome = Forward 'p | Terminate 'p | StageFault

fun outcome_of :: "'p handler_outcome \<Rightarrow> 'p outcome" where
  "outcome_of (Returned [send_message p]) = Forward p"
| "outcome_of (Returned [yield_output p]) = Terminate p"
| "outcome_of other = StageFault"

text \<open>
  Modelled from the spec: the two facts of \<open>agent_framework\<close>'s scheduling that the order
  property of section 8 speaks of: a stage's handler was invoked, a stage emitted its
  successor envelope. The Run keeps them in a log beside its events.
\<close>

datatype log_entry = Invoked stage_id | Emitted stage_id

text \<open>
  Modelled from the spec: the Run of \<open>agent_framework\<close> (section 3): its state, the
  pending-work queue, the captured terminal output, the stages instantiated in this Run,
  and the event stream produced so far.
\<close>

record 'p Run =
  r_state :: RunState
  r_queue :: "(stage_id \<times> 'p) list"
  r_output :: "'p option"
  r_instances :: "(stage_id \<times> 'p handler) list"
  r_events :: "'p WorkflowEvent list"
  r_log :: "log_entry list"

text \<open>
  Modelled from the spec: the lifecycle of a Run of \<open>agent_framework\<close> (sections 4.2 and
  4.3). A Run is constructed \<open>INITIALIZING\<close> with the queue seeded with the entry stage
  and the initial envelope; it announces \<open>RUNNING\<close> once, \<open>FAILED\<close> alone on a fault, and
  \<open>COMPLETED\<close> immediately followed by the output event on \<open>complete\<close>. The successors of
  a stage are the targets of the edges that leave it.
\<close>

definition new_run :: "'p Graph \<Rightarrow> 'p \<Rightarrow> 'p Run" where
  "new_run g initial =
     \<lparr>r_state = INITIALIZING, r_queue = [(g_entry g, initial)], r_output = None,
      r_instances = [], r_events = [], r_log = []\<rparr>"

definition start :: "'p Run \<Rightarrow> 'p Run" where
  "start r = r\<lparr>r_state := RUNNING, r_events := r_events r @ [WorkflowStatusEvent RUNNING]\<rparr>"

definition fail :: "'p Run \<Rightarrow> 'p Run" where
  "fail r = r\<lparr>r_state := FAILED, r_events := r_events r @ [WorkflowStatusEvent FAILED]\<rparr>"

definition finish :: "'p \<Rightarrow> 'p Run \<Rightarrow> 'p Run" where
  "finish p r = r\<lparr>r_state := COMPLETED, r_output := Some p,
     r_events := r_events r @ [WorkflowStatusEvent COMPLETED, WorkflowOutputEvent p]\<rparr>"

definition successors :: "'p Graph \<Rightarrow> stage_id \<Rightarrow> stage_id list" where
  "successors g sid = map snd (filter (\<lambda>e. fst e = sid) (g_edges g))"

text \<open>
  Modelled from the spec: one round of \<open>agent_framework\<close>'s scheduler (section 4.2, steps
  1 to 4): dequeue the next pair, instantiate the stage with its factory or reuse the
  instance of this Run, invoke the handler; \<open>emit\<close> enqueues the envelope to each edge
  that leaves the stage, \<open>complete\<close> records the output and ends the Run, and a fault
  (of the handler, or an \<open>emit\<close> with no edge to take it, or a stage the Graph does not
  have) fails the Run.
\<close>

definition dispatch :: "'p Graph \<Rightarrow> 'p Run \<Rightarrow> 'p Run" where
  "dispatch g r =
     (case r_queue r of
        [] \<Rightarrow> r
      | item # rest \<Rightarrow>
          (let sid = fst item; envelope = snd item in
           case map_of (g_stages g) sid of
             None \<Rightarrow> fail (r\<lparr>r_queue := rest\<rparr>)
           | Some factory \<Rightarrow>
               (let known = map_of (r_instances r) sid;
                    instance = (case known of Some h \<Rightarrow> h | None \<Rightarrow> factory ());
                    r1 = r\<lparr>r_queue := rest,
                           r_instances := (case known of Some h \<Rightarrow> r_instances r
                                           | None \<Rightarrow> r_instances r @ [(sid, instance)]),
                           r_log := r_log r @ [Invoked sid]\<rparr>
                in case outcome_of (instance envelope) of
                     StageFault \<Rightarrow> fail r1
                   | Terminate p \<Rightarrow> finish p r1
                   | Forward p \<Rightarrow>
                       (if successors g sid = [] then fail r1
                        else r1\<lparr>r_queue := rest @ map (\<lambda>t. (t, p)) (successors g sid),
                                r_log := r_log r1 @ [Emitted sid]\<rparr>))))"

text \<open>
  Modelled from the spec: the loop of \<open>agent_framework\<close>'s scheduler (section 4.2): while
  the queue is non-empty and no terminal output has been recorded, and the Run has not
  failed. The loop may go on for ever on a graph with a cycle, so it takes fuel: \<open>None\<close>
  is a Run that has not ended within it.
\<close>

definition pending :: "'p Run \<Rightarrow> bool" where
  "pending r = (r_queue r \<noteq> [] \<and> r_output r = None \<and> r_state r \<noteq> FAILED)"

fun run_loop :: "nat \<Rightarrow> 'p Graph \<Rightarrow> 'p Run \<Rightarrow> 'p Run option" where
  "run_loop 0 g r = (if pending r then None else Some r)"
| "run_loop (Suc n) g r = (if pending r then run_loop n g (dispatch g r) else Some r)"

definition run :: "nat \<Rightarrow> 'p Graph \<Rightarrow> 'p \<Rightarrow> 'p Run option" where
  "run fuel g initial = run_loop fuel g (start (new_run g initial))"

text \<open>
  Modelled from the spec: \<open>run_stream\<close> of \<open>agent_framework\<close> (section 4.3): the events of
  the Run, in the order they were produced.
\<close>

definition run_stream :: "nat \<Rightarrow> 'p Graph \<Rightarrow> 'p \<Rightarrow> 'p WorkflowEvent list option" where
  "run_stream fuel g initial = map_option r_events (run fuel g initial)"

text \<open>
  A terminal event (section 4.2: \<open>COMPLETED\<close> and \<open>FAILED\<close> are the terminal states), and
  the stages invoked, in the order of a log.
\<close>

definition is_terminal :: "'p WorkflowEvent \<Rightarrow> bool" where
  "is_terminal ev = (ev = WorkflowStatusEvent COMPLETED \<or> ev = WorkflowStatusEvent FAILED)"

definition invocations :: "log_entry list \<Rightarrow> stage_id list" where
  "invocations entries = concat (map (\<lambda>e. case e of Invoked sid \<Rightarrow> [sid] | Emitted sid \<Rightarrow> []) entries)"

section \<open>The two workflows the repository builds\<close>

text \<open>
  The executors as the factories of the builder chains construct them: the class with
  its agent and its default id. A handler is registered for the type of its message
  parameter; a message of another type has no handler in the stage, which is taken as a
  fault of the stage.
\<close>

definition CustomerDataAgentExecutor :: "ChatAgent \<Rightarrow> payload handler" where
  "CustomerDataAgentExecutor a message =
     (case message of
        Req request \<Rightarrow>
          CustomerDataAgentExecutor_handle \<lparr>agent = a, executor_id = ''CustomerDataAgent''\<rparr> request
      | _ \<Rightarrow> Raised ''no handler for the message'')"

definition RiskAnalyserAgentExecutor :: "ChatAgent \<Rightarrow> payload handler" where
  "RiskAnalyserAgentExecutor a message =
     (case message of
        Cust customer_response \<Rightarrow>
          RiskAnalyserAgentExecutor_handle \<lparr>agent = a, executor_id = ''RiskAnalyserAgent''\<rparr>
            customer_response
      | _ \<Rightarrow> Raised ''no handler for the message'')"

definition FraudAlertAgentExecutor :: "ChatAgent \<Rightarrow> payload handler" where
  "FraudAlertAgentExecutor a message =
     (case message of
        Risk risk_response \<Rightarrow>
          FraudAlertAgentExecutor_handle \<lparr>agent = a, executor_id = ''FraudAlertAgent''\<rparr>
            risk_response
      | _ \<Rightarrow> Raised ''no handler for the message'')"

text \<open>The chain of builder calls of \<open>run_fraud_detection_workflow\<close> and of \<open>main\<close>.\<close>

definition fraud_detection_calls ::
  "ChatAgent \<Rightarrow> ChatAgent \<Rightarrow> ChatAgent \<Rightarrow> payload builder_call list" where
  "fraud_detection_calls customer_data_agent risk_analyser_agent fraud_alert_agent =
     [register ''CustomerDataAgent'' (\<lambda>u. CustomerDataAgentExecutor customer_data_agent),
      register ''RiskAnalyserAgent'' (\<lambda>u. RiskAnalyserAgentExecutor risk_analyser_agent),
      register ''FraudAlertAgent'' (\<lambda>u. FraudAlertAgentExecutor fraud_alert_agent),
      connect ''CustomerDataAgent'' ''RiskAnalyserAgent'',
      connect ''RiskAnalyserAgent'' ''FraudAlertAgent'',
      setEntry ''CustomerDataAgent'']"

text \<open>
  Modelled from the spec: a chain of calls on \<open>agent_framework\<close>'s builder that ends in
  \<open>.build()\<close>, as both workflows of the repository are built.
\<close>

definition build_chain :: "'p builder_call list \<Rightarrow> build_error + 'p Graph" where
  "build_chain cs = (case calls cs WorkflowBuilder of Inl err \<Rightarrow> Inl err | Inr b \<Rightarrow> build b)"

text \<open>The Graph that chain builds.\<close>

definition fraud_detection_graph :: "ChatAgent \<Rightarrow> ChatAgent \<Rightarrow> ChatAgent \<Rightarrow> payload Graph" where
  "fraud_detection_graph customer_data_agent risk_analyser_agent fraud_alert_agent =
     \<lparr>g_stages =
        [(''CustomerDataAgent'', \<lambda>u. CustomerDataAgentExecutor customer_data_agent),
         (''RiskAnalyserAgent'', \<lambda>u. RiskAnalyserAgentExecutor risk_analyser_agent),
         (''FraudAlertAgent'', \<lambda>u. FraudAlertAgentExecutor fraud_alert_agent)],
      g_edges = [(''CustomerDataAgent'', ''RiskAnalyserAgent''),
                 (''RiskAnalyserAgent'', ''FraudAlertAgent'')],
      g_entry = ''CustomerDataAgent''\<rparr>"

definition ResearcherAgentV2Executor :: "ChatAgent \<Rightarrow> seq_payload handler" where
  "ResearcherAgentV2Executor a message =
     ResearcherAgentV2Executor_handle \<lparr>agent = a, executor_id = ''ResearcherAgentV2''\<rparr> message"

definition WriterAgentV2Executor :: "ChatAgent \<Rightarrow> seq_payload handler" where
  "WriterAgentV2Executor a message =
     (case message of
        Messages messages \<Rightarrow>
          WriterAgentV2Executor_handle \<lparr>agent = a, executor_id = ''WriterAgentV2''\<rparr> messages
      | _ \<Rightarrow> Raised ''no handler for the message'')"

definition ReviewerAgentV2Executor :: "ChatAgent \<Rightarrow> seq_payload handler" where
  "ReviewerAgentV2Executor a message =
     (case message of
        Messages messages \<Rightarrow>
          ReviewerAgentV2Executor_handle \<lparr>agent = a, executor_id = ''ReviewerAgentV2''\<rparr> messages
      | _ \<Rightarrow> Raised ''no handler for the message'')"

text \<open>The chain of builder calls of \<open>main\<close> in \<open>sequential_agents.py\<close>.\<close>

definition sequential_calls ::
  "ChatAgent \<Rightarrow> ChatAgent \<Rightarrow> ChatAgent \<Rightarrow> seq_payload builder_call list" where
  "sequential_calls researcher writer reviewer =
     [register ''ResearcherAgentV2'' (\<lambda>u. ResearcherAgentV2Executor researcher),
      register ''WriterAgentV2'' (\<lambda>u. WriterAgentV2Executor writer),
      register ''ReviewerAgentV2'' (\<lambda>u. ReviewerAgentV2Executor reviewer),
      connect ''ResearcherAgentV2'' ''WriterAgentV2'',
      connect ''WriterAgentV2'' ''ReviewerAgentV2'',
      setEntry ''ResearcherAgentV2'']"

text \<open>The Graph that chain builds.\<close>

definition sequential_graph :: "ChatAgent \<Rightarrow> ChatAgent \<Rightarrow> ChatAgent \<Rightarrow> seq_payload Graph" where
  "sequential_graph researcher writer reviewer =
     \<lparr>g_stages =
        [(''ResearcherAgentV2'', \<lambda>u. ResearcherAgentV2Executor researcher),
         (''WriterAgentV2'', \<lambda>u. WriterAgentV2Executor writer),
         (''ReviewerAgentV2'', \<lambda>u. ReviewerAgentV2Executor reviewer)],
      g_edges = [(''ResearcherAgentV2'', ''WriterAgentV2''),
                 (''WriterAgentV2'', ''ReviewerAgentV2'')],
      g_entry = ''ResearcherAgentV2''\<rparr>"

section \<open>Vocabulary for the build validation\<close>

text \<open>
  A set of stages closed under the edges; the edges whose target is not yet reached; and
  the three defects of a graph under construction that the specification's testable
  property names.
\<close>

definition edge_closed :: "(stage_id \<times> stage_id) list \<Rightarrow> stage_id set \<Rightarrow> bool" where
  "edge_closed es S = (\<forall>s t. (s, t) \<in> set es \<and> s \<in> S \<longrightarrow> t \<in> S)"

definition unseen :: "(stage_id \<times> stage_id) list \<Rightarrow> stage_id list \<Rightarrow> nat" where
  "unseen es seen = length (filter (\<lambda>e. snd e \<notin> set seen) es)"

definition unregistered_endpoint :: "'p Builder \<Rightarrow> bool" where
  "unregistered_endpoint b =
     (\<exists>e \<in> set (b_edges b). fst e \<notin> fst ` set (b_stages b) \<or> snd e \<notin> fst ` set (b_stages b))"

definition no_entry :: "'p Builder \<Rightarrow> bool" where
  "no_entry b = (b_entry b = None)"

definition unreachable_stage_exists :: "'p Builder \<Rightarrow> bool" where
  "unreachable_stage_exists b =
     (\<exists>e n. b_entry b = Some e \<and> n \<in> fst ` set (b_stages b) \<and> (e, n) \<notin> (set (b_edges b))\<^sup>*)"

section \<open>Vocabulary for the runs\<close>

text \<open>
  What is true of a Run at every round of its loop: it is running with work pending and
  has announced only that, or it has failed, or it has completed with its output. And
  the logs a Run of the sequential demo can leave.
\<close>

definition run_inv :: "'p Run \<Rightarrow> bool" where
  "run_inv r =
     ((r_state r = RUNNING \<and> r_output r = None \<and> r_queue r \<noteq> []
         \<and> r_events r = [WorkflowStatusEvent RUNNING])
      \<or> (r_state r = FAILED \<and> r_events r = [WorkflowStatusEvent RUNNING, WorkflowStatusEvent FAILED])
      \<or> (\<exists>p. r_state r = COMPLETED \<and> r_output r = Some p
            \<and> r_events r = [WorkflowStatusEvent RUNNING, WorkflowStatusEvent COMPLETED,
                             WorkflowOutputEvent p]))"

definition seq_log1 :: "log_entry list" where
  "seq_log1 = [Invoked ''ResearcherAgentV2'']"

definition seq_log2 :: "log_entry list" where
  "seq_log2 = [Invoked ''ResearcherAgentV2'', Emitted ''ResearcherAgentV2'', Invoked ''WriterAgentV2'']"

definition seq_log3 :: "log_entry list" where
  "seq_log3 = [Invoked ''ResearcherAgentV2'', Emitted ''ResearcherAgentV2'',
               Invoked ''WriterAgentV2'', Emitted ''WriterAgentV2'', Invoked ''ReviewerAgentV2'']"

text \<open>
  A graph without cycles, given by a rank that falls along every edge; and the weight of
  a queue under it, which every round of the loop that goes on makes smaller.
\<close>

definition descending :: "'p Graph \<Rightarrow> (stage_id \<Rightarrow> nat) \<Rightarrow> bool" where
  "descending g rank = (\<forall>e \<in> set (g_edges g). rank (snd e) < rank (fst e))"

definition weight :: "'p Graph \<Rightarrow> (stage_id \<Rightarrow> nat) \<Rightarrow> (stage_id \<times> 'p) list \<Rightarrow> nat" where
  "weight g rank queue = sum_list (map (\<lambda>item. Suc (length (g_edges g)) ^ rank (fst item)) queue)"

text \<open>
  The order of dispatch, read off a log: the first entry is the invocation of the entry
  stage, and every later invocation of a stage comes after the emission of a stage that
  has an edge to it.
\<close>

fun after_emission :: "(stage_id \<times> stage_id) list \<Rightarrow> stage_id list \<Rightarrow> log_entry list \<Rightarrow> bool" where
  "after_emission edges emitted [] = True"
| "after_emission edges emitted (Emitted s # rest) = after_emission edges (s # emitted) rest"
| "after_emission edges emitted (Invoked t # rest) =
     (list_ex (\<lambda>s. (s, t) \<in> set edges) emitted \<and> after_emission edges emitted rest)"

definition dispatch_order :: "'p Graph \<Rightarrow> log_entry list \<Rightarrow> bool" where
  "dispatch_order g entries =
     (case entries of [] \<Rightarrow> True
      | first # rest \<Rightarrow> first = Invoked (g_entry g) \<and> after_emission (g_edges g) [] rest)"

definition emitted_of :: "log_entry list \<Rightarrow> stage_id list" where
  "emitted_of entries = concat (map (\<lambda>e. case e of Emitted s \<Rightarrow> [s] | Invoked t \<Rightarrow> []) entries)"

definition queue_justified :: "'p Graph \<Rightarrow> 'p Run \<Rightarrow> bool" where
  "queue_justified g r =
     (if r_log r = [] then length (r_queue r) \<le> 1 \<and> list_all (\<lambda>item. fst item = g_entry g) (r_queue r)
      else list_all (\<lambda>item. list_ex (\<lambda>s. (s, fst item) \<in> set (g_edges g)) (emitted_of (tl (r_log r))))
             (r_queue r))"

section \<open>Example inputs\<close>

text \<open>
  The first test case of \<open>main\<close> (without its amount, a float), and agents that answer as
  the prompts ask them to.
\<close>

definition demo_request :: AnalysisRequest where
  "demo_request =
     \<lparr>req_transaction_id = ''TX1001'', req_customer_id = ''CUST1001'',
      req_amount = None, req_currency = Some ''USD''\<rparr>"

definition demo_customer_response :: CustomerDataResponse where
  "demo_customer_response =
     \<lparr>cd_customer_id = ''CUST1001'', cd_transaction_id = ''TX1001'',
      cd_analysis = ''New account, three countries in a day'', cd_status = ''SUCCESS'',
      cd_amount = None, cd_currency = Some ''USD''\<rparr>"

definition demo_risk_response :: RiskAnalysisResponse where
  "demo_risk_response =
     risk_success_response demo_customer_response ''Risk Score: 82/100'' 82"

definition demo_customer_agent :: ChatAgent where
  "demo_customer_agent = replying [assistant ''New account, three countries in a day'']"

definition demo_risk_agent :: ChatAgent where
  "demo_risk_agent = replying [assistant ''Risk Score: 82/100'']"

definition demo_alert_agent :: ChatAgent where
  "demo_alert_agent = replying [assistant ''Fraud Alert Created for TX1001'']"

definition chain_rank :: "stage_id \<Rightarrow> nat" where
  "chain_rank sid =
     (if sid = ''CustomerDataAgent'' \<or> sid = ''ResearcherAgentV2'' then 2
      else if sid = ''RiskAnalyserAgent'' \<or> sid = ''WriterAgentV2'' then 1 else 0)"

definition demo_graph :: "payload Graph" where
  "demo_graph = fraud_detection_graph demo_customer_agent demo_risk_agent demo_alert_agent"

definition demo_alert :: FraudAlertResponse where
  "demo_alert =
     \<lparr>fa_transaction_id = ''TX1001'', fa_customer_id = ''CUST1001'',
      fa_alert_response = ''Fraud Alert Created for TX1001'', fa_alert_created = True,
      fa_workflow_status = ''SUCCESS'', fa_risk_score = 82, fa_risk_level = ''HIGH''\<rparr>"

definition fraud_log1 :: "log_entry list" where
  "fraud_log1 = [Invoked ''CustomerDataAgent'']"

definition fraud_log2 :: "log_entry list" where
  "fraud_log2 = [Invoked ''CustomerDataAgent'', Emitted ''CustomerDataAgent'',
                 Invoked ''RiskAnalyserAgent'']"

definition fraud_log :: "log_entry list" where
  "fraud_log = [Invoked ''CustomerDataAgent'', Emitted ''CustomerDataAgent'',
                Invoked ''RiskAnalyserAgent'', Emitted ''RiskAnalyserAgent'',
                Invoked ''FraudAlertAgent'']"

text \<open>The calls of the fraud detection chain with its first edge connected twice.\<close>

definition duplicate_edge_calls :: "payload builder_call list" where
  "duplicate_edge_calls =
     [register ''CustomerDataAgent'' (\<lambda>u. CustomerDataAgentExecutor demo_customer_agent),
      register ''RiskAnalyserAgent'' (\<lambda>u. RiskAnalyserAgentExecutor demo_risk_agent),
      register ''FraudAlertAgent'' (\<lambda>u. FraudAlertAgentExecutor demo_alert_agent),
      connect ''CustomerDataAgent'' ''RiskAnalyserAgent'',
      connect ''CustomerDataAgent'' ''RiskAnalyserAgent'',
      connect ''RiskAnalyserAgent'' ''FraudAlertAgent'',
      setEntry ''CustomerDataAgent'']"

definition duplicate_edge_builder :: "payload Builder" where
  "duplicate_edge_builder =
     \<lparr>b_stages =
        [(''CustomerDataAgent'', \<lambda>u. CustomerDataAgentExecutor demo_customer_agent),
         (''RiskAnalyserAgent'', \<lambda>u. RiskAnalyserAgentExecutor demo_risk_agent),
         (''FraudAlertAgent'', \<lambda>u. FraudAlertAgentExecutor demo_alert_agent)],
      b_edges = [(''CustomerDataAgent'', ''RiskAnalyserAgent''),
                 (''CustomerDataAgent'', ''RiskAnalyserAgent''),
                 (''RiskAnalyserAgent'', ''FraudAlertAgent'')],
      b_entry = Some ''CustomerDataAgent''\<rparr>"

text \<open>
  A graph with a cycle: one stage that forwards what it receives, and an edge from it to
  itself. A Run of it is looping when it is in the state every round of it leaves.
\<close>

definition forwarding_stage :: "payload handler" where
  "forwarding_stage message = Returned [send_message message]"

definition loop_calls :: "payload builder_call list" where
  "loop_calls =
     [register ''Loop'' (\<lambda>u. forwarding_stage), connect ''Loop'' ''Loop'', setEntry ''Loop'']"

definition loop_graph :: "payload Graph" where
  "loop_graph =
     \<lparr>g_stages = [(''Loop'', \<lambda>u. forwarding_stage)], g_edges = [(''Loop'', ''Loop'')],
      g_entry = ''Loop''\<rparr>"

definition looping :: "payload Run \<Rightarrow> bool" where
  "looping r =
     (r_state r = RUNNING \<and> r_output r = None \<and> r_queue r = [(''Loop'', Req demo_request)]
      \<and> (map_of (r_instances r) ''Loop'' = None
           \<or> map_of (r_instances r) ''Loop'' = Some forwarding_stage))"

section \<open>Properties\<close>

subsection \<open>The consuming loop\<close>

lemma consume_outputs:
  "consume evs fr = (if outputs evs = [] then fr else Some (last (outputs evs)))"
proof (induction evs fr rule: consume.induct)
  case (1 fr) then show ?case by (simp add: outputs_def)
next
  case (2 d evs fr) then show ?case by (simp add: outputs_def)
next
  case (3 s evs fr) then show ?case by (simp add: outputs_def)
qed

subsection \<open>Group 1 of a score pattern is a number\<close>

lemma advance_group: "snd (snd (advance k (p, s, g))) = g"
  by (simp add: advance_def)

lemma no_group_keeps:
  "no_group r \<Longrightarrow> m \<in> set (rmatch r (p, s, g)) \<Longrightarrow> snd (snd m) = g"
proof (induction r arbitrary: p s m)
  case (Seq a b)
  from Seq.prems obtain st where st: "st \<in> set (rmatch a (p, s, g))" and m: "m \<in> set (rmatch b st)"
    by auto
  obtain p' s' g' where st_eq: "st = (p', s', g')" by (cases st) auto
  from Seq.IH(1)[OF _ st] Seq.prems(1) st_eq have "g' = g" by simp
  with Seq.IH(2)[of m p' s'] m st_eq Seq.prems(1) show ?case by simp
qed (auto simp: advance_def split: if_splits)

lemma take_run_digits:
  assumes "k \<le> length (takeWhile is_digit s)" "1 \<le> k"
  shows "good_number (take k s)"
proof -
  have le: "k \<le> length s" using assms(1) length_takeWhile_le[of is_digit s] by linarith
  have "take k s = take k (takeWhile is_digit s)"
    using assms(1) by (metis takeWhile_dropWhile_id take_append diff_is_0_eq' take0 append_Nil2)
  moreover have "list_all is_digit (takeWhile is_digit s)"
    by (simp add: list_all_iff) (meson set_takeWhileD)
  ultimately have "list_all is_digit (take k s)"
    by (metis list_all_iff in_set_takeD)
  moreover have "take k s \<noteq> []" using le assms(2) by (cases s) auto
  ultimately show ?thesis by (simp add: good_number_def)
qed

lemma rep_member:
  "set (rmatch (Rep c lo hi) st) = (\<lambda>k. advance k st) ` {lo..min hi (run_length c st)}"
  by (simp del: upt_Suc add: atLeastLessThanSuc_atLeastAtMost)

lemma group_member:
  "m \<in> set (rmatch (Group a) (p, s, g)) \<Longrightarrow>
     \<exists>p' s' g'. (p', s', g') \<in> set (rmatch a (p, s, g)) \<and>
       m = (p', s', Some (take (length s - length s') s))"
  by auto

lemma group_digits:
  assumes "1 \<le> lo" "m \<in> set (rmatch (Group (Rep cls_digit lo hi)) (p, s, g))"
  shows "\<exists>d. group1 m = Some d \<and> good_number d"
proof -
  from group_member[OF assms(2)] obtain p' s' g'
    where r: "(p', s', g') \<in> set (rmatch (Rep cls_digit lo hi) (p, s, g))"
      and m: "m = (p', s', Some (take (length s - length s') s))" by blast
  from r obtain k where k: "lo \<le> k" "k \<le> run_length cls_digit (p, s, g)"
    and r_eq: "(p', s', g') = advance k (p, s, g)"
    unfolding rep_member by auto
  have run: "run_length cls_digit (p, s, g) = length (takeWhile is_digit s)"
    by (simp add: run_length_def in_class.simps[abs_def])
  have "k \<le> length s" using k(2) run length_takeWhile_le[of is_digit s] by linarith
  then have len: "length s - length (drop k s) = k" by simp
  have s': "s' = drop k s" using r_eq by (simp add: advance_def)
  have "good_number (take k s)" using take_run_digits[of k s] k run assms(1) by simp
  then show ?thesis using m s' len by (simp add: group1_def)
qed

lemma captures_number_sets:
  "captures_number r \<Longrightarrow> m \<in> set (rmatch r (p, s, g)) \<Longrightarrow> \<exists>d. group1 m = Some d \<and> good_number d"
proof (induction r arbitrary: p s g m)
  case (Group a)
  from Group.prems(1) obtain lo hi where a: "a = Rep cls_digit lo hi" and lo: "1 \<le> lo"
    by (cases a) auto
  show ?case using group_digits[OF lo] Group.prems(2) a by blast
next
  case (Seq a b)
  from Seq.prems obtain st where st: "st \<in> set (rmatch a (p, s, g))" and m: "m \<in> set (rmatch b st)"
    by auto
  obtain p' s' g' where st_eq: "st = (p', s', g')" by (cases st) auto
  from Seq.prems(1) consider "no_group a" "captures_number b" | "captures_number a" "no_group b"
    by auto
  then show ?case
  proof cases
    case 1
    from m st_eq have "m \<in> set (rmatch b (p', s', g'))" by simp
    from Seq.IH(2)[OF 1(2) this] show ?thesis .
  next
    case 2
    from Seq.IH(1)[OF 2(1) st] obtain d where d: "group1 st = Some d" "good_number d" by auto
    then have g': "g' = Some d" using st_eq by (simp add: group1_def)
    from m st_eq have "m \<in> set (rmatch b (p', s', g'))" by simp
    from no_group_keeps[OF 2(2) this] have "snd (snd m) = Some d" using g' by simp
    then show ?thesis using d(2) by (cases m) (auto simp: group1_def)
  qed
qed simp_all

lemma search_from_member:
  "search_from r p s = Some m \<Longrightarrow> \<exists>st. m \<in> set (rmatch r st)"
proof (induction r p s rule: search_from.induct)
  case (1 r p)
  then have "m \<in> set (rmatch r (p, [], None))" by (auto split: list.splits)
  then show ?case by blast
next
  case (2 r p c cs)
  show ?case
  proof (cases "rmatch r (p, c # cs, None)")
    case Nil
    then show ?thesis using 2 by simp
  next
    case (Cons x xs)
    then have "m \<in> set (rmatch r (p, c # cs, None))" using "2.prems" by simp
    then show ?thesis by blast
  qed
qed

lemma re_search_number:
  assumes "captures_number r" "re_search r s = Some m"
  shows "\<exists>d. group1 m = Some d \<and> good_number d"
proof -
  from assms(2) have "search_from r None s = Some m" by (simp add: re_search_def)
  from search_from_member[OF this] obtain st where "m \<in> set (rmatch r st)" by blast
  then show ?thesis using captures_number_sets[OF assms(1)] by (cases st) auto
qed

lemma py_int_good: "good_number d \<Longrightarrow> \<exists>n. py_int d = Inr n"
  by (simp add: py_int_def good_number_def)

lemma parse_score_total:
  "\<forall>r \<in> set ps. captures_number r \<Longrightarrow>
     parse_score ps t = Inr None \<or> (\<exists>n. parse_score ps t = Inr (Some n) \<and> 0 \<le> n \<and> n \<le> 100)"
proof (induction ps)
  case Nil
  then show ?case by simp
next
  case (Cons r ps)
  show ?case
  proof (cases "re_search r (str_lower t)")
    case None
    then show ?thesis using Cons by simp
  next
    case (Some m)
    then obtain d where d: "group1 m = Some d" "good_number d"
      using re_search_number[of r "str_lower t" m] Cons.prems by auto
    then obtain n where n: "py_int d = Inr n" using py_int_good by blast
    show ?thesis using Some d n Cons by simp
  qed
qed

lemma patterns_capture: "\<forall>r \<in> set patterns. captures_number r"
  by (simp add: patterns_def cat_def score_group_def)


subsection \<open>Substrings\<close>




subsection \<open>The handlers, case by case\<close>

lemma fallback_values: "fallback_score t \<in> {85, 55, 25, 50}"
  by (simp add: fallback_score_def)

lemma risk_handle_success:
  assumes "agent self [user (risk_prompt cr)] = Response messages"
  shows "\<exists>score. RiskAnalyserAgentExecutor_handle self cr =
            Returned [send_message (Risk (risk_success_response cr (last_text messages) score))]
          \<and> 0 \<le> score \<and> score \<le> 100
          \<and> (parse_score patterns (last_text messages) = Inr (Some score)
             \<or> parse_score patterns (last_text messages) = Inr None
               \<and> score = fallback_score (last_text messages))"
proof -
  from parse_score_total[OF patterns_capture, of "last_text messages"]
  consider "parse_score patterns (last_text messages) = Inr None"
    | n where "parse_score patterns (last_text messages) = Inr (Some n)" "0 \<le> n" "n \<le> 100"
    by blast
  then show ?thesis
  proof cases
    case 1
    have "0 \<le> fallback_score (last_text messages) \<and> fallback_score (last_text messages) \<le> 100"
      by (simp add: fallback_score_def)
    then show ?thesis using 1 assms
      by (simp add: RiskAnalyserAgentExecutor_handle_def user_def Let_def)
  next
    case 2
    then show ?thesis using assms
      by (simp add: RiskAnalyserAgentExecutor_handle_def user_def Let_def)
  qed
qed

lemma risk_handle_error:
  assumes "agent self [user (risk_prompt cr)] = RaisesException e"
  shows "RiskAnalyserAgentExecutor_handle self cr =
            Returned [send_message (Risk (risk_error_response cr e))]"
  using assms by (simp add: RiskAnalyserAgentExecutor_handle_def user_def)

lemma risk_handle_uncaught:
  assumes "agent self [user (risk_prompt cr)] = RaisesBaseException e"
  shows "RiskAnalyserAgentExecutor_handle self cr = Raised e"
  using assms by (simp add: RiskAnalyserAgentExecutor_handle_def user_def)

lemma customer_handle_cases:
  "CustomerDataAgentExecutor_handle self request =
     (case agent self [user (customer_prompt request)] of
        Response messages \<Rightarrow>
          Returned [send_message (Cust
            \<lparr>cd_customer_id = req_customer_id request,
             cd_transaction_id = req_transaction_id request,
             cd_analysis = last_text messages, cd_status = ''SUCCESS'',
             cd_amount = req_amount request, cd_currency = req_currency request\<rparr>)]
      | RaisesException e \<Rightarrow>
          Returned [send_message (Cust
            \<lparr>cd_customer_id = req_customer_id request,
             cd_transaction_id = req_transaction_id request,
             cd_analysis = ''Error: '' @ e, cd_status = ''ERROR'',
             cd_amount = None, cd_currency = Some ''USD''\<rparr>)]
      | RaisesBaseException e \<Rightarrow> Raised e)"
  by (simp add: CustomerDataAgentExecutor_handle_def user_def split: agent_outcome.splits)

lemma fraud_handle_cases:
  "FraudAlertAgentExecutor_handle self rr =
     (case agent self [user (fraud_prompt rr)] of
        Response messages \<Rightarrow>
          Returned [yield_output (Alert
            \<lparr>fa_transaction_id = ra_transaction_id rr,
             fa_customer_id = ra_customer_id rr,
             fa_alert_response = last_text messages,
             fa_alert_created = alert_created (last_text messages) (ra_risk_score rr),
             fa_workflow_status = ''SUCCESS'',
             fa_risk_score = ra_risk_score rr, fa_risk_level = ra_risk_level rr\<rparr>)]
      | RaisesException e \<Rightarrow>
          Returned [yield_output (Alert
            \<lparr>fa_transaction_id = ra_transaction_id rr,
             fa_customer_id = ra_customer_id rr,
             fa_alert_response = ''Error: '' @ e,
             fa_alert_created = False,
             fa_workflow_status = ''ERROR'',
             fa_risk_score = ra_risk_score rr, fa_risk_level = ra_risk_level rr\<rparr>)]
      | RaisesBaseException e \<Rightarrow> Raised e)"
  by (simp add: FraudAlertAgentExecutor_handle_def user_def Let_def split: agent_outcome.splits)

lemma risk_handle_cases:
  "case agent self [user (risk_prompt cr)] of
     Response messages \<Rightarrow>
       (\<exists>ra. RiskAnalyserAgentExecutor_handle self cr = Returned [send_message (Risk ra)]
          \<and> ra_status ra = ''SUCCESS'' \<and> ra_risk_analysis ra = last_text messages)
   | RaisesException e \<Rightarrow>
       (\<exists>ra. RiskAnalyserAgentExecutor_handle self cr = Returned [send_message (Risk ra)]
          \<and> ra_status ra = ''ERROR'' \<and> ra_risk_analysis ra = ''Error: '' @ e)
   | RaisesBaseException e \<Rightarrow> RiskAnalyserAgentExecutor_handle self cr = Raised e"
proof (cases "agent self [user (risk_prompt cr)]")
  case (Response messages)
  from risk_handle_success[OF Response] obtain score where
    "RiskAnalyserAgentExecutor_handle self cr =
       Returned [send_message (Risk (risk_success_response cr (last_text messages) score))]"
    by blast
  then show ?thesis using Response by (simp add: risk_success_response_def)
next
  case (RaisesException e)
  then show ?thesis using risk_handle_error[OF RaisesException]
    by (simp add: risk_error_response_def)
next
  case (RaisesBaseException e)
  then show ?thesis using risk_handle_uncaught[OF RaisesBaseException] by simp
qed

lemma customer_outcome:
  "(\<exists>e. CustomerDataAgentExecutor_handle self request = Raised e)
   \<or> (\<exists>cd. CustomerDataAgentExecutor_handle self request = Returned [send_message (Cust cd)])"
  unfolding customer_handle_cases by (simp split: agent_outcome.splits)

lemma risk_outcome:
  "(\<exists>e. RiskAnalyserAgentExecutor_handle self cr = Raised e)
   \<or> (\<exists>ra. RiskAnalyserAgentExecutor_handle self cr = Returned [send_message (Risk ra)])"
  using risk_handle_cases[of self cr]
  by (cases "agent self [user (risk_prompt cr)]") auto

lemma fraud_outcome:
  "(\<exists>e. FraudAlertAgentExecutor_handle self rr = Raised e)
   \<or> (\<exists>fa. FraudAlertAgentExecutor_handle self rr = Returned [yield_output (Alert fa)])"
  unfolding fraud_handle_cases by (simp split: agent_outcome.splits)

lemma customer_returns:
  "catchable (agent self) \<Longrightarrow>
     \<exists>cd. CustomerDataAgentExecutor_handle self request = Returned [send_message (Cust cd)]"
  unfolding customer_handle_cases catchable_def by (simp split: agent_outcome.splits)

lemma risk_returns:
  "catchable (agent self) \<Longrightarrow>
     \<exists>ra. RiskAnalyserAgentExecutor_handle self cr = Returned [send_message (Risk ra)]"
  using risk_handle_cases[of self cr] unfolding catchable_def
  by (cases "agent self [user (risk_prompt cr)]") auto

lemma fraud_returns:
  "catchable (agent self) \<Longrightarrow>
     \<exists>fa. FraudAlertAgentExecutor_handle self rr = Returned [yield_output (Alert fa)]"
  unfolding fraud_handle_cases catchable_def by (simp split: agent_outcome.splits)


lemma researcher_handle_cases:
  "ResearcherAgentV2Executor_handle self message =
     (case agent self (history_of message) of
        RaisesException e \<Rightarrow> Raised e
      | RaisesBaseException e \<Rightarrow> Raised e
      | Response c \<Rightarrow> if c = [] then Raised ''list index out of range''
                 else Returned [send_message (Messages (history_of message @ c))])"
  by (simp add: ResearcherAgentV2Executor_handle_def history_of_def Let_def
      split: agent_outcome.splits)

subsection \<open>The chains build, and the Runs of the fraud detection chain\<close>

lemma fraud_detection_builds:
  "build_chain (fraud_detection_calls a b c) = Inr (fraud_detection_graph a b c)"
  by (simp add: build_chain_def fraud_detection_calls_def fraud_detection_graph_def
      WorkflowBuilder_def build_def endpoints_def reachable_from_def reach_step_def duplicates_def)

lemma sequential_builds:
  "build_chain (sequential_calls a b c) = Inr (sequential_graph a b c)"
  by (simp add: build_chain_def sequential_calls_def sequential_graph_def
      WorkflowBuilder_def build_def endpoints_def reachable_from_def reach_step_def duplicates_def)

lemmas fraud_unfold = run_def new_run_def start_def pending_def dispatch_def
  fraud_detection_graph_def successors_def CustomerDataAgentExecutor_def
  RiskAnalyserAgentExecutor_def FraudAlertAgentExecutor_def finish_def fail_def Let_def

lemma fraud_run:
  fixes a b c request k
  defines "s1 \<equiv> \<lparr>agent = a, executor_id = ''CustomerDataAgent''\<rparr>"
    and "s2 \<equiv> \<lparr>agent = b, executor_id = ''RiskAnalyserAgent''\<rparr>"
    and "s3 \<equiv> \<lparr>agent = c, executor_id = ''FraudAlertAgent''\<rparr>"
  shows "\<exists>r. run (Suc (Suc (Suc k))) (fraud_detection_graph a b c) (Req request) = Some r
     \<and> ((\<exists>fa. r_state r = COMPLETED \<and> r_log r = fraud_log
            \<and> r_events r = [WorkflowStatusEvent RUNNING, WorkflowStatusEvent COMPLETED,
                             WorkflowOutputEvent (Alert fa)])
        \<or> (r_state r = FAILED
            \<and> (r_log r = fraud_log1 \<or> r_log r = fraud_log2 \<or> r_log r = fraud_log)
            \<and> r_events r = [WorkflowStatusEvent RUNNING, WorkflowStatusEvent FAILED]))"
proof -
  consider e1 where "CustomerDataAgentExecutor_handle s1 request = Raised e1"
    | cd where "CustomerDataAgentExecutor_handle s1 request = Returned [send_message (Cust cd)]"
    using customer_outcome by blast
  then show ?thesis
  proof cases
    case 1
    then show ?thesis unfolding s1_def s2_def s3_def
      by (cases k) (simp_all add: fraud_unfold fraud_log1_def)
  next
    case h1: 2
    consider e2 where "RiskAnalyserAgentExecutor_handle s2 cd = Raised e2"
      | ra where "RiskAnalyserAgentExecutor_handle s2 cd = Returned [send_message (Risk ra)]"
      using risk_outcome by blast
    then show ?thesis
    proof cases
      case 1
      then show ?thesis using h1 unfolding s1_def s2_def s3_def
        by (cases k) (simp_all add: fraud_unfold fraud_log2_def)
    next
      case h2: 2
      consider e3 where "FraudAlertAgentExecutor_handle s3 ra = Raised e3"
        | fa where "FraudAlertAgentExecutor_handle s3 ra = Returned [yield_output (Alert fa)]"
        using fraud_outcome by blast
      then show ?thesis
      proof cases
        case 1
        then show ?thesis using h1 h2 unfolding s1_def s2_def s3_def
          by (cases k) (simp_all add: fraud_unfold fraud_log_def)
      next
        case 2
        then show ?thesis using h1 h2 unfolding s1_def s2_def s3_def
          by (cases k) (simp_all add: fraud_unfold fraud_log_def)
      qed
    qed
  qed
qed

lemma fraud_run_completes:
  assumes "catchable a" "catchable b" "catchable c"
  shows "\<exists>r fa. run (Suc (Suc (Suc k))) (fraud_detection_graph a b c) (Req request) = Some r
     \<and> r_state r = COMPLETED \<and> r_log r = fraud_log
     \<and> r_events r = [WorkflowStatusEvent RUNNING, WorkflowStatusEvent COMPLETED,
                      WorkflowOutputEvent (Alert fa)]"
proof -
  let ?s1 = "\<lparr>agent = a, executor_id = ''CustomerDataAgent''\<rparr>"
  let ?s2 = "\<lparr>agent = b, executor_id = ''RiskAnalyserAgent''\<rparr>"
  let ?s3 = "\<lparr>agent = c, executor_id = ''FraudAlertAgent''\<rparr>"
  obtain cd where cd: "CustomerDataAgentExecutor_handle ?s1 request = Returned [send_message (Cust cd)]"
    using customer_returns[of ?s1 request] assms(1) by auto
  obtain ra where ra: "RiskAnalyserAgentExecutor_handle ?s2 cd = Returned [send_message (Risk ra)]"
    using risk_returns[of ?s2 cd] assms(2) by auto
  obtain fa where fa: "FraudAlertAgentExecutor_handle ?s3 ra = Returned [yield_output (Alert fa)]"
    using fraud_returns[of ?s3 ra] assms(3) by auto
  show ?thesis using cd ra fa
    by (cases k) (simp_all add: fraud_unfold fraud_log_def)
qed

subsection \<open>Build validation\<close>

lemma distinct_count: "distinct xs \<longleftrightarrow> (\<forall>x \<in> set xs. count_list xs x \<le> 1)"
proof (induction xs)
  case Nil
  then show ?case by simp
next
  case (Cons a xs)
  show ?case
  proof (cases "a \<in> set xs")
    case True
    then have "0 < count_list xs a" using count_list_0_iff[of xs a] by simp
    then show ?thesis using True by auto
  next
    case False
    then have "count_list xs a = 0" by simp
    then show ?thesis using False Cons.IH by auto
  qed
qed

lemma duplicates_empty: "duplicates xs = [] \<longleftrightarrow> distinct xs"
  by (auto simp: duplicates_def filter_empty_conv distinct_count not_less)

lemma reach_step_set:
  "set (reach_step es seen) = set seen \<union> {t. \<exists>s \<in> set seen. (s, t) \<in> set es}"
  by (force simp: reach_step_def)

lemma reach_step_closed: "edge_closed es (set seen) \<Longrightarrow> reach_step es seen = seen"
  by (auto simp: reach_step_def edge_closed_def filter_empty_conv)

lemma reach_closed: "edge_closed es (set seen) \<Longrightarrow> reach n es seen = seen"
  by (induction n) (simp_all add: reach_step_closed)

lemma unseen_zero_closed: "unseen es seen = 0 \<Longrightarrow> edge_closed es (set seen)"
  by (force simp: unseen_def edge_closed_def filter_empty_conv)

lemma reach_step_progress:
  assumes "\<not> edge_closed es (set seen)"
  shows "unseen es (reach_step es seen) < unseen es seen"
proof -
  from assms obtain s t where e: "(s, t) \<in> set es" "s \<in> set seen" "t \<notin> set seen"
    by (auto simp: edge_closed_def)
  let ?P = "\<lambda>e. snd e \<notin> set seen"
  let ?Q = "\<lambda>e. snd e \<notin> set (reach_step es seen)"
  have t_in: "t \<in> set (reach_step es seen)" using e by (auto simp: reach_step_set)
  have "filter ?Q es = filter ?Q (filter ?P es)"
    by (auto simp: reach_step_set intro: filter_cong)
  moreover have "(s, t) \<in> set (filter ?P es)" using e by simp
  moreover have "\<not> ?Q (s, t)" using t_in by simp
  ultimately have "length (filter ?Q es) < length (filter ?P es)"
    using length_filter_less[of "(s, t)" "filter ?P es" ?Q] by simp
  then show ?thesis by (simp add: unseen_def)
qed

lemma reach_becomes_closed:
  "unseen es seen \<le> n \<Longrightarrow> edge_closed es (set (reach n es seen))"
proof (induction n arbitrary: seen)
  case 0
  then show ?case by (simp add: unseen_zero_closed)
next
  case (Suc n)
  show ?case
  proof (cases "edge_closed es (set seen)")
    case True
    then show ?thesis by (simp add: reach_closed del: reach.simps)
  next
    case False
    from reach_step_progress[OF False] Suc.prems have "unseen es (reach_step es seen) \<le> n" by simp
    from Suc.IH[OF this] show ?thesis by simp
  qed
qed

lemma reach_grows: "set seen \<subseteq> set (reach n es seen)"
proof (induction n arbitrary: seen)
  case 0
  then show ?case by simp
next
  case (Suc n)
  have "set seen \<subseteq> set (reach_step es seen)" by (auto simp: reach_step_set)
  also have "\<dots> \<subseteq> set (reach n es (reach_step es seen))" by (rule Suc.IH)
  finally show ?case by simp
qed

lemma reach_sound: "set seen \<subseteq> (set es)\<^sup>* `` A \<Longrightarrow> set (reach n es seen) \<subseteq> (set es)\<^sup>* `` A"
proof (induction n arbitrary: seen)
  case 0
  then show ?case by simp
next
  case (Suc n)
  have "set (reach_step es seen) \<subseteq> (set es)\<^sup>* `` A"
  proof
    fix t assume "t \<in> set (reach_step es seen)"
    then consider "t \<in> set seen" | s where "s \<in> set seen" "(s, t) \<in> set es"
      by (auto simp: reach_step_set)
    then show "t \<in> (set es)\<^sup>* `` A"
    proof cases
      case 1
      then show ?thesis using Suc.prems by auto
    next
      case 2
      then obtain a where "a \<in> A" "(a, s) \<in> (set es)\<^sup>*" using Suc.prems by auto
      then have "(a, t) \<in> (set es)\<^sup>*" using 2(2) by (meson rtrancl.rtrancl_into_rtrancl)
      then show ?thesis using \<open>a \<in> A\<close> by auto
    qed
  qed
  from Suc.IH[OF this] show ?case by simp
qed

lemma closed_contains_reachable:
  assumes "edge_closed es S" "a \<in> S" "(a, t) \<in> (set es)\<^sup>*"
  shows "t \<in> S"
  using assms(3,1,2) by (induction rule: rtrancl_induct) (auto simp: edge_closed_def)

lemma reachable_from_set: "set (reachable_from es e) = {t. (e, t) \<in> (set es)\<^sup>*}"
proof
  have "set [e] \<subseteq> (set es)\<^sup>* `` {e}" by auto
  from reach_sound[OF this] show "set (reachable_from es e) \<subseteq> {t. (e, t) \<in> (set es)\<^sup>*}"
    by (auto simp: reachable_from_def)
next
  have "unseen es [e] \<le> length es" by (simp add: unseen_def)
  from reach_becomes_closed[OF this] have c: "edge_closed es (set (reachable_from es e))"
    by (simp add: reachable_from_def)
  have "e \<in> set (reachable_from es e)" using reach_grows[of "[e]"] by (auto simp: reachable_from_def)
  with c show "{t. (e, t) \<in> (set es)\<^sup>*} \<subseteq> set (reachable_from es e)"
    using closed_contains_reachable by blast
qed

lemma endpoints_set: "set (endpoints es) = fst ` set es \<union> snd ` set es"
  by (auto simp: endpoints_def)

lemma build_fails_iff:
  "isl (build b) \<longleftrightarrow>
     unregistered_endpoint b \<or> no_entry b \<or> unreachable_stage_exists b \<or> \<not> distinct (b_edges b)"
proof (cases "filter (\<lambda>n. n \<notin> set (map fst (b_stages b))) (endpoints (b_edges b))")
  case (Cons u us)
  then have "u \<in> set (filter (\<lambda>n. n \<notin> set (map fst (b_stages b))) (endpoints (b_edges b)))" by simp
  then have "unregistered_endpoint b"
    by (auto simp: endpoints_set unregistered_endpoint_def)
  then show ?thesis using Cons by (simp add: build_def)
next
  case Nil
  then have ok: "\<not> unregistered_endpoint b"
    by (auto simp: filter_empty_conv endpoints_set unregistered_endpoint_def)
  show ?thesis
  proof (cases "b_entry b")
    case None
    then show ?thesis using Nil by (simp add: build_def no_entry_def)
  next
    case (Some e)
    have "filter (\<lambda>n. n \<notin> set (reachable_from (b_edges b) e)) (map fst (b_stages b)) = []
            \<longleftrightarrow> \<not> unreachable_stage_exists b"
      using Some by (auto simp: filter_empty_conv reachable_from_set unreachable_stage_exists_def)
    then show ?thesis using Nil Some ok
      by (auto simp: build_def Let_def no_entry_def duplicates_empty)
  qed
qed

subsection \<open>A Run that ends has announced one terminal state\<close>

lemma start_inv: "run_inv (start (new_run g initial))"
  by (simp add: run_inv_def start_def new_run_def)

lemma dispatch_inv:
  assumes "run_inv r" "pending r"
  shows "run_inv (dispatch g r)"
proof -
  from assms have st: "r_state r = RUNNING" "r_output r = None" "r_queue r \<noteq> []"
    "r_events r = [WorkflowStatusEvent RUNNING]"
    by (auto simp: run_inv_def pending_def)
  then obtain item rest where q: "r_queue r = item # rest" by (cases "r_queue r") auto
  show ?thesis
  proof (cases "map_of (g_stages g) (fst item)")
    case None
    then show ?thesis using q st by (simp add: dispatch_def fail_def run_inv_def Let_def)
  next
    case (Some factory)
    then show ?thesis using q st
      by (cases "outcome_of ((case map_of (r_instances r) (fst item) of
                               Some h \<Rightarrow> h | None \<Rightarrow> factory ()) (snd item))")
         (simp_all add: dispatch_def fail_def finish_def run_inv_def Let_def)
  qed
qed

lemma run_loop_inv:
  "run_loop n g r = Some r' \<Longrightarrow> run_inv r \<Longrightarrow> run_inv r' \<and> \<not> pending r'"
proof (induction n arbitrary: r)
  case 0
  then show ?case by (auto split: if_splits)
next
  case (Suc n)
  show ?case
  proof (cases "pending r")
    case True
    then have "run_loop n g (dispatch g r) = Some r'" using Suc.prems(1) by simp
    from Suc.IH[OF this dispatch_inv[OF Suc.prems(2) True]] show ?thesis .
  next
    case False
    then show ?thesis using Suc.prems by simp
  qed
qed

lemma ended_events:
  assumes "run_inv r" "\<not> pending r"
  shows "r_events r = [WorkflowStatusEvent RUNNING, WorkflowStatusEvent FAILED]
         \<or> (\<exists>p. r_events r = [WorkflowStatusEvent RUNNING, WorkflowStatusEvent COMPLETED,
                                WorkflowOutputEvent p])"
  using assms by (auto simp: run_inv_def pending_def)

lemma run_stream_ends:
  assumes "run_stream n g initial = Some events"
  shows "events = [WorkflowStatusEvent RUNNING, WorkflowStatusEvent FAILED]
         \<or> (\<exists>p. events = [WorkflowStatusEvent RUNNING, WorkflowStatusEvent COMPLETED,
                             WorkflowOutputEvent p])"
proof -
  from assms obtain r where r: "run_loop n g (start (new_run g initial)) = Some r"
    and e: "events = r_events r"
    by (auto simp: run_stream_def run_def)
  from run_loop_inv[OF r start_inv] ended_events show ?thesis using e by blast
qed

lemma run_loop_more_fuel:
  "run_loop n g r = Some r' \<Longrightarrow> run_loop (n + k) g r = Some r'"
proof (induction n arbitrary: r)
  case 0
  then show ?case by (cases k) (auto split: if_splits)
next
  case (Suc n)
  then show ?case by (auto split: if_splits)
qed

lemma run_loop_fuel_independent:
  assumes "run_loop n g r = Some r1" "run_loop m g r = Some r2"
  shows "r1 = r2"
proof (cases "n \<le> m")
  case True
  then obtain k where "m = n + k" using le_Suc_ex by blast
  with run_loop_more_fuel[OF assms(1), of k] assms(2) show ?thesis by simp
next
  case False
  then obtain k where "n = m + k" using le_Suc_ex nat_le_linear by blast
  with run_loop_more_fuel[OF assms(2), of k] assms(1) show ?thesis by simp
qed

lemma run_stream_fuel_independent:
  assumes "run_stream n g initial = Some e1" "run_stream m g initial = Some e2"
  shows "e1 = e2"
  using assms run_loop_fuel_independent
  by (fastforce simp: run_stream_def run_def)

subsection \<open>The Runs of the sequential demo\<close>

lemma writer_handle_cases:
  "WriterAgentV2Executor_handle self messages =
     (case agent self messages of
        RaisesException e \<Rightarrow> Raised e
      | RaisesBaseException e \<Rightarrow> Raised e
      | Response c \<Rightarrow> if c = [] then Raised ''list index out of range''
                 else Returned [send_message (Messages (messages @ c))])"
  by (simp add: WriterAgentV2Executor_handle_def)


lemmas run_unfold = run_def new_run_def start_def pending_def dispatch_def sequential_graph_def
        successors_def ResearcherAgentV2Executor_def WriterAgentV2Executor_def
        ReviewerAgentV2Executor_def finish_def fail_def Let_def

lemma reviewer_handle_cases:
  "ReviewerAgentV2Executor_handle self messages =
     (case agent self messages of
        RaisesException e \<Rightarrow> Raised e
      | RaisesBaseException e \<Rightarrow> Raised e
      | Response c \<Rightarrow> if c = [] then Raised ''list index out of range''
                 else Returned [yield_output (Messages (messages @ c))])"
  by (simp add: ReviewerAgentV2Executor_handle_def)

lemma researcher_outcome:
  "(\<exists>e. ResearcherAgentV2Executor_handle s task = Raised e)
   \<or> (\<exists>m. ResearcherAgentV2Executor_handle s task = Returned [send_message (Messages m)])"
  unfolding researcher_handle_cases by (simp split: agent_outcome.splits)

lemma writer_outcome:
  "(\<exists>e. WriterAgentV2Executor_handle s ms = Raised e)
   \<or> (\<exists>m. WriterAgentV2Executor_handle s ms = Returned [send_message (Messages m)])"
  unfolding writer_handle_cases by (simp split: agent_outcome.splits)

lemma reviewer_outcome:
  "(\<exists>e. ReviewerAgentV2Executor_handle s ms = Raised e)
   \<or> (\<exists>m. ReviewerAgentV2Executor_handle s ms = Returned [yield_output (Messages m)])"
  unfolding reviewer_handle_cases by (simp split: agent_outcome.splits)

lemma sequential_run:
  fixes a b c task k
  defines "s1 \<equiv> \<lparr>agent = a, executor_id = ''ResearcherAgentV2''\<rparr>"
    and "s2 \<equiv> \<lparr>agent = b, executor_id = ''WriterAgentV2''\<rparr>"
    and "s3 \<equiv> \<lparr>agent = c, executor_id = ''ReviewerAgentV2''\<rparr>"
  shows "\<exists>r. run (Suc (Suc (Suc k))) (sequential_graph a b c) task = Some r
     \<and> ((\<exists>final. r_state r = COMPLETED \<and> r_log r = seq_log3
            \<and> r_events r = [WorkflowStatusEvent RUNNING, WorkflowStatusEvent COMPLETED,
                             WorkflowOutputEvent (Messages final)]
            \<and> sequential_chain s1 s2 s3 task = Some final)
        \<or> (r_state r = FAILED
            \<and> (r_log r = seq_log1 \<or> r_log r = seq_log2 \<or> r_log r = seq_log3)
            \<and> r_events r = [WorkflowStatusEvent RUNNING, WorkflowStatusEvent FAILED]
            \<and> sequential_chain s1 s2 s3 task = None))"
proof -
  consider e1 where "ResearcherAgentV2Executor_handle s1 task = Raised e1"
    | m1 where "ResearcherAgentV2Executor_handle s1 task = Returned [send_message (Messages m1)]"
    using researcher_outcome by blast
  then show ?thesis
  proof cases
    case 1
    then show ?thesis unfolding s1_def s2_def s3_def
      by (cases k) (simp_all add: run_unfold seq_log1_def sequential_chain_def)
  next
    case h1: 2
    consider e2 where "WriterAgentV2Executor_handle s2 m1 = Raised e2"
      | m2 where "WriterAgentV2Executor_handle s2 m1 = Returned [send_message (Messages m2)]"
      using writer_outcome by blast
    then show ?thesis
    proof cases
      case 1
      then show ?thesis using h1 unfolding s1_def s2_def s3_def
        by (cases k) (simp_all add: run_unfold seq_log2_def sequential_chain_def)
    next
      case h2: 2
      consider e3 where "ReviewerAgentV2Executor_handle s3 m2 = Raised e3"
        | m3 where "ReviewerAgentV2Executor_handle s3 m2 = Returned [yield_output (Messages m3)]"
        using reviewer_outcome by blast
      then show ?thesis
      proof cases
        case 1
        then show ?thesis using h1 h2 unfolding s1_def s2_def s3_def
          by (cases k) (simp_all add: run_unfold seq_log3_def sequential_chain_def)
      next
        case 2
        then show ?thesis using h1 h2 unfolding s1_def s2_def s3_def
          by (cases k) (simp_all add: run_unfold seq_log3_def sequential_chain_def)
      qed
    qed
  qed
qed

subsection \<open>A Run of a graph without cycles ends\<close>

lemma weight_append: "weight g rank (xs @ ys) = weight g rank xs + weight g rank ys"
  by (simp add: weight_def)

lemma weight_Cons:
  "weight g rank (item # rest) = Suc (length (g_edges g)) ^ rank (fst item) + weight g rank rest"
  by (simp add: weight_def)

lemma weight_positive: "queue \<noteq> [] \<Longrightarrow> 0 < weight g rank queue"
  by (cases queue) (simp_all add: weight_Cons)

lemma successors_length: "length (successors g sid) \<le> length (g_edges g)"
  by (simp add: successors_def)

lemma successors_rank:
  assumes "descending g rank" "t \<in> set (successors g sid)"
  shows "rank t < rank sid"
  using assms by (auto simp: descending_def successors_def)

lemma sum_list_bound:
  "(\<And>x. x \<in> set xs \<Longrightarrow> f x \<le> (c::nat)) \<Longrightarrow> sum_list (map f xs) \<le> length xs * c"
  by (induction xs) (auto simp: add_le_mono)

lemma weight_successors:
  assumes "descending g rank" "successors g sid \<noteq> []"
  shows "weight g rank (map (\<lambda>t. (t, p)) (successors g sid)) < Suc (length (g_edges g)) ^ rank sid"
proof -
  let ?B = "Suc (length (g_edges g))"
  from assms obtain t where "t \<in> set (successors g sid)" by (cases "successors g sid") auto
  then have "0 < rank sid" using successors_rank[OF assms(1)] by fastforce
  then obtain m where m: "rank sid = Suc m" by (cases "rank sid") auto
  have "?B ^ rank t \<le> ?B ^ m" if "t \<in> set (successors g sid)" for t
  proof -
    have "rank t \<le> m" using successors_rank[OF assms(1) that] m by simp
    then show ?thesis by (simp add: power_increasing)
  qed
  then have "sum_list (map (\<lambda>t. ?B ^ rank t) (successors g sid)) \<le> length (successors g sid) * ?B ^ m"
    by (rule sum_list_bound)
  also have "\<dots> \<le> length (g_edges g) * ?B ^ m"
    using successors_length by (simp add: mult_le_mono1)
  also have "\<dots> < ?B * ?B ^ m" by simp
  finally show ?thesis using m by (simp add: weight_def comp_def)
qed

lemma dispatch_progress:
  assumes "descending g rank" "pending r"
  shows "\<not> pending (dispatch g r) \<or> weight g rank (r_queue (dispatch g r)) < weight g rank (r_queue r)"
proof -
  from assms(2) obtain item rest where q: "r_queue r = item # rest"
    by (cases "r_queue r") (auto simp: pending_def)
  show ?thesis
  proof (cases "map_of (g_stages g) (fst item)")
    case None
    then show ?thesis using q by (simp add: dispatch_def fail_def pending_def Let_def)
  next
    case (Some factory)
    let ?inst = "case map_of (r_instances r) (fst item) of Some h \<Rightarrow> h | None \<Rightarrow> factory ()"
    show ?thesis
    proof (cases "outcome_of (?inst (snd item))")
      case (Forward p)
      show ?thesis
      proof (cases "successors g (fst item) = []")
        case True
        then show ?thesis using q Some Forward
          by (simp add: dispatch_def fail_def pending_def Let_def)
      next
        case False
        have "r_queue (dispatch g r) = rest @ map (\<lambda>t. (t, p)) (successors g (fst item))"
          using q Some Forward False by (simp add: dispatch_def Let_def)
        then show ?thesis using weight_successors[OF assms(1) False, of p] q
          by (simp add: weight_append weight_Cons)
      qed
    next
      case (Terminate p)
      then show ?thesis using q Some by (simp add: dispatch_def finish_def pending_def Let_def)
    next
      case StageFault
      then show ?thesis using q Some by (simp add: dispatch_def fail_def pending_def Let_def)
    qed
  qed
qed

lemma run_loop_ends:
  assumes "descending g rank"
  shows "weight g rank (r_queue r) \<le> n \<Longrightarrow> \<exists>r'. run_loop n g r = Some r'"
proof (induction n arbitrary: r)
  case 0
  then have "r_queue r = []" using weight_positive[of "r_queue r" g rank] by auto
  then show ?case by (simp add: pending_def)
next
  case (Suc n)
  show ?case
  proof (cases "pending r")
    case False
    then show ?thesis by simp
  next
    case True
    from dispatch_progress[OF assms True]
    consider "\<not> pending (dispatch g r)"
      | "weight g rank (r_queue (dispatch g r)) < weight g rank (r_queue r)" by blast
    then show ?thesis
    proof cases
      case 1
      then have "run_loop n g (dispatch g r) = Some (dispatch g r)" by (cases n) simp_all
      then show ?thesis using True by simp
    next
      case 2
      then have "weight g rank (r_queue (dispatch g r)) \<le> n" using Suc.prems by simp
      from Suc.IH[OF this] show ?thesis using True by simp
    qed
  qed
qed

lemma run_ends:
  assumes "descending g rank"
  shows "\<exists>r. run (Suc (length (g_edges g)) ^ rank (g_entry g)) g initial = Some r"
proof -
  have "weight g rank (r_queue (start (new_run g initial))) = Suc (length (g_edges g)) ^ rank (g_entry g)"
    by (simp add: start_def new_run_def weight_def)
  then show ?thesis using run_loop_ends[OF assms, of "start (new_run g initial)"]
    by (simp add: run_def)
qed

subsection \<open>The order of dispatch\<close>

lemma after_emission_mono:
  "after_emission edges em xs \<Longrightarrow> set em \<subseteq> set em' \<Longrightarrow> after_emission edges em' xs"
proof (induction edges em xs arbitrary: em' rule: after_emission.induct)
  case (1 edges emitted)
  then show ?case by simp
next
  case (2 edges emitted s rest)
  then show ?case by (simp add: subset_insertI2)
next
  case (3 edges emitted t rest)
  then show ?case by (auto simp: list_ex_iff)
qed

lemma after_emission_append:
  "after_emission edges em (xs @ ys) \<longleftrightarrow>
     after_emission edges em xs \<and> after_emission edges (rev (emitted_of xs) @ em) ys"
proof (induction edges em xs rule: after_emission.induct)
  case (1 edges emitted)
  then show ?case by (simp add: emitted_of_def)
next
  case (2 edges emitted s rest)
  then show ?case by (simp add: emitted_of_def)
next
  case (3 edges emitted t rest)
  then show ?case by (auto simp: emitted_of_def)
qed

lemma emitted_of_append: "emitted_of (xs @ ys) = emitted_of xs @ emitted_of ys"
  by (simp add: emitted_of_def)

lemma dispatch_keeps_order:
  assumes "dispatch_order g (r_log r)" "queue_justified g r" "pending r"
  shows "dispatch_order g (r_log (dispatch g r)) \<and> queue_justified g (dispatch g r)"
proof -
  from assms(3) obtain item rest where q: "r_queue r = item # rest"
    by (cases "r_queue r") (auto simp: pending_def)
  show ?thesis
  proof (cases "map_of (g_stages g) (fst item)")
    case None
    then have d: "dispatch g r = fail (r\<lparr>r_queue := rest\<rparr>)" using q by (simp add: dispatch_def Let_def)
    show ?thesis using assms(1,2) q unfolding d
      by (auto simp: fail_def queue_justified_def)
  next
    case (Some factory)
    let ?sid = "fst item"
    let ?inst = "case map_of (r_instances r) ?sid of Some h \<Rightarrow> h | None \<Rightarrow> factory ()"
    have inv_ok: "dispatch_order g (r_log r @ [Invoked ?sid])"
    proof (cases "r_log r")
      case Nil
      then have "?sid = g_entry g" using assms(2) q by (simp add: queue_justified_def)
      then show ?thesis using Nil by (simp add: dispatch_order_def)
    next
      case (Cons first more)
      then have "list_ex (\<lambda>s. (s, ?sid) \<in> set (g_edges g)) (emitted_of more)"
        using assms(2) q by (simp add: queue_justified_def)
      then have "list_ex (\<lambda>s. (s, ?sid) \<in> set (g_edges g)) (rev (emitted_of more))"
        by (simp add: list_ex_iff)
      then show ?thesis using Cons assms(1)
        by (simp add: dispatch_order_def after_emission_append)
    qed
    have rest_ok: "list_all (\<lambda>item. list_ex (\<lambda>s. (s, fst item) \<in> set (g_edges g))
                     (emitted_of (tl (r_log r @ extra)))) rest" for extra
    proof (cases "r_log r")
      case Nil
      then have "rest = []" using assms(2) q by (simp add: queue_justified_def)
      then show ?thesis by simp
    next
      case (Cons first more)
      then have "list_all (\<lambda>item. list_ex (\<lambda>s. (s, fst item) \<in> set (g_edges g)) (emitted_of more)) rest"
        using assms(2) q by (simp add: queue_justified_def)
      then show ?thesis using Cons
        by (auto simp: list_all_iff list_ex_iff emitted_of_append)
    qed
    show ?thesis
    proof (cases "outcome_of (?inst (snd item))")
      case StageFault
      then have "r_log (dispatch g r) = r_log r @ [Invoked ?sid]" "r_queue (dispatch g r) = rest"
        using q Some by (simp_all add: dispatch_def fail_def Let_def)
      then show ?thesis using inv_ok rest_ok[of "[Invoked ?sid]"] by (simp add: queue_justified_def)
    next
      case (Terminate p)
      then have "r_log (dispatch g r) = r_log r @ [Invoked ?sid]" "r_queue (dispatch g r) = rest"
        using q Some by (simp_all add: dispatch_def finish_def Let_def)
      then show ?thesis using inv_ok rest_ok[of "[Invoked ?sid]"] by (simp add: queue_justified_def)
    next
      case (Forward p)
      show ?thesis
      proof (cases "successors g ?sid = []")
        case True
        then have "r_log (dispatch g r) = r_log r @ [Invoked ?sid]" "r_queue (dispatch g r) = rest"
          using q Some Forward by (simp_all add: dispatch_def fail_def Let_def)
        then show ?thesis using inv_ok rest_ok[of "[Invoked ?sid]"] by (simp add: queue_justified_def)
      next
        case False
        then have l: "r_log (dispatch g r) = r_log r @ [Invoked ?sid, Emitted ?sid]"
          and qq: "r_queue (dispatch g r) = rest @ map (\<lambda>t. (t, p)) (successors g ?sid)"
          using q Some Forward by (simp_all add: dispatch_def Let_def)
        have o: "dispatch_order g (r_log r @ [Invoked ?sid, Emitted ?sid])"
          using inv_ok by (cases "r_log r") (simp_all add: dispatch_order_def after_emission_append)
        have "?sid \<in> set (emitted_of (tl (r_log r @ [Invoked ?sid, Emitted ?sid])))"
          by (cases "r_log r") (simp_all add: emitted_of_def)
        then have "list_all (\<lambda>item. list_ex (\<lambda>s. (s, fst item) \<in> set (g_edges g))
                     (emitted_of (tl (r_log r @ [Invoked ?sid, Emitted ?sid]))))
                     (map (\<lambda>t. (t, p)) (successors g ?sid))"
          by (auto simp: list_all_iff list_ex_iff successors_def)
        then show ?thesis using o rest_ok[of "[Invoked ?sid, Emitted ?sid]"]
          by (simp add: queue_justified_def l qq)
      qed
    qed
  qed
qed

lemma run_loop_keeps_order:
  "run_loop n g r = Some r' \<Longrightarrow> dispatch_order g (r_log r) \<Longrightarrow> queue_justified g r \<Longrightarrow>
     dispatch_order g (r_log r')"
proof (induction n arbitrary: r)
  case 0
  then show ?case by (auto split: if_splits)
next
  case (Suc n)
  show ?case
  proof (cases "pending r")
    case True
    then have "run_loop n g (dispatch g r) = Some r'" using Suc.prems(1) by simp
    from Suc.IH[OF this] dispatch_keeps_order[OF Suc.prems(2,3) True] show ?thesis by blast
  next
    case False
    then show ?thesis using Suc.prems by simp
  qed
qed

lemma run_dispatch_order:
  assumes "run n g initial = Some r"
  shows "dispatch_order g (r_log r)"
proof -
  have "dispatch_order g (r_log (start (new_run g initial)))"
    "queue_justified g (start (new_run g initial))"
    by (simp_all add: start_def new_run_def dispatch_order_def queue_justified_def)
  with run_loop_keeps_order[of n g "start (new_run g initial)" r] assms show ?thesis
    by (simp add: run_def)
qed


subsection \<open>The examples\<close>

lemma parse_demo: "parse_score patterns ''Risk Score: 82/100'' = Inr (Some 82)"
  by code_simp

lemma demo_customer_handle:
  "CustomerDataAgentExecutor_handle
     \<lparr>agent = demo_customer_agent, executor_id = ''CustomerDataAgent''\<rparr> demo_request
   = Returned [send_message (Cust demo_customer_response)]"
  by (simp add: CustomerDataAgentExecutor_handle_def demo_customer_agent_def replying_def
      demo_request_def demo_customer_response_def last_text_def assistant_def)

lemma demo_risk_handle:
  "RiskAnalyserAgentExecutor_handle
     \<lparr>agent = demo_risk_agent, executor_id = ''RiskAnalyserAgent''\<rparr> demo_customer_response
   = Returned [send_message (Risk demo_risk_response)]"
  by (simp add: RiskAnalyserAgentExecutor_handle_def demo_risk_agent_def replying_def
      demo_risk_response_def last_text_def assistant_def parse_demo)

lemma demo_alert_handle:
  "FraudAlertAgentExecutor_handle
     \<lparr>agent = demo_alert_agent, executor_id = ''FraudAlertAgent''\<rparr> demo_risk_response
   = Returned [yield_output (Alert demo_alert)]"
  by (simp add: FraudAlertAgentExecutor_handle_def demo_alert_agent_def replying_def
      demo_risk_response_def risk_success_response_def demo_customer_response_def
      last_text_def assistant_def alert_created_def risk_level_def demo_alert_def)

lemma demo_run_any_fuel:
  "run (Suc (Suc (Suc k))) demo_graph (Req demo_request) =
     Some \<lparr>r_state = COMPLETED, r_queue = [], r_output = Some (Alert demo_alert),
           r_instances = [(''CustomerDataAgent'', CustomerDataAgentExecutor demo_customer_agent),
                          (''RiskAnalyserAgent'', RiskAnalyserAgentExecutor demo_risk_agent),
                          (''FraudAlertAgent'', FraudAlertAgentExecutor demo_alert_agent)],
           r_events = [WorkflowStatusEvent RUNNING, WorkflowStatusEvent COMPLETED,
                       WorkflowOutputEvent (Alert demo_alert)],
           r_log = fraud_log\<rparr>"
  using demo_customer_handle demo_risk_handle demo_alert_handle
  by (cases k) (simp_all add: demo_graph_def run_def new_run_def start_def pending_def dispatch_def
      fraud_detection_graph_def successors_def CustomerDataAgentExecutor_def
      RiskAnalyserAgentExecutor_def FraudAlertAgentExecutor_def finish_def fail_def Let_def
      fraud_log_def)

lemma nine: "Suc (Suc (Suc 6)) = 9"
  by simp

lemmas demo_run = demo_run_any_fuel [of 6, unfolded nine]

lemma demo_fuel: "Suc (length (g_edges demo_graph)) ^ chain_rank (g_entry demo_graph) = 9"
  by (simp add: demo_graph_def fraud_detection_graph_def chain_rank_def power2_eq_square)

lemma demo_descending: "descending demo_graph chain_rank"
  by (simp add: descending_def demo_graph_def fraud_detection_graph_def chain_rank_def)

lemma fraud_stream:
  "\<exists>events. run_stream (Suc (Suc (Suc k))) (fraud_detection_graph a b c) (Req request) = Some events
     \<and> (events = [WorkflowStatusEvent RUNNING, WorkflowStatusEvent FAILED]
        \<or> (\<exists>fa. events = [WorkflowStatusEvent RUNNING, WorkflowStatusEvent COMPLETED,
                             WorkflowOutputEvent (Alert fa)]))"
proof -
  from fraud_run[of k a b c request] obtain r where
    r: "run (Suc (Suc (Suc k))) (fraud_detection_graph a b c) (Req request) = Some r"
    and e: "r_events r = [WorkflowStatusEvent RUNNING, WorkflowStatusEvent FAILED]
        \<or> (\<exists>fa. r_events r = [WorkflowStatusEvent RUNNING, WorkflowStatusEvent COMPLETED,
                                 WorkflowOutputEvent (Alert fa)])"
    by blast
  have "run_stream (Suc (Suc (Suc k))) (fraud_detection_graph a b c) (Req request)
          = Some (r_events r)"
    using r by (simp add: run_stream_def)
  then show ?thesis using e by blast
qed

lemma fraud_stream_completes:
  assumes "catchable a" "catchable b" "catchable c"
  shows "\<exists>fa. run_stream (Suc (Suc (Suc k))) (fraud_detection_graph a b c) (Req request) =
          Some [WorkflowStatusEvent RUNNING, WorkflowStatusEvent COMPLETED,
                WorkflowOutputEvent (Alert fa)]"
proof -
  from fraud_run_completes[OF assms, of k request] obtain r fa where
    "run (Suc (Suc (Suc k))) (fraud_detection_graph a b c) (Req request) = Some r"
    "r_events r = [WorkflowStatusEvent RUNNING, WorkflowStatusEvent COMPLETED,
                   WorkflowOutputEvent (Alert fa)]"
    by blast
  then have "run_stream (Suc (Suc (Suc k))) (fraud_detection_graph a b c) (Req request) =
          Some [WorkflowStatusEvent RUNNING, WorkflowStatusEvent COMPLETED,
                WorkflowOutputEvent (Alert fa)]"
    by (simp add: run_stream_def)
  then show ?thesis ..
qed

lemma demo_catchable:
  "catchable demo_customer_agent" "catchable demo_risk_agent" "catchable demo_alert_agent"
  by (simp_all add: catchable_def demo_customer_agent_def demo_risk_agent_def
      demo_alert_agent_def replying_def)

lemma duplicate_edge_builder_calls:
  "calls duplicate_edge_calls WorkflowBuilder = Inr duplicate_edge_builder"
  by (simp add: duplicate_edge_calls_def duplicate_edge_builder_def WorkflowBuilder_def)

lemma duplicate_edge_builder_fails:
  "build duplicate_edge_builder
     = Inl (InvalidGraphError [duplicate_edge ''CustomerDataAgent'' ''RiskAnalyserAgent''])"
  by (simp add: duplicate_edge_builder_def build_def endpoints_def reachable_from_def
      reach_step_def duplicates_def)

lemma duplicate_edge_builder_reachable:
  "\<not> unreachable_stage_exists duplicate_edge_builder"
proof
  let ?E = "set (b_edges duplicate_edge_builder)"
  assume "unreachable_stage_exists duplicate_edge_builder"
  then obtain e n where e: "b_entry duplicate_edge_builder = Some e"
    and n: "n \<in> fst ` set (b_stages duplicate_edge_builder)"
    and u: "(e, n) \<notin> ?E\<^sup>*"
    unfolding unreachable_stage_exists_def by blast
  have e_eq: "e = ''CustomerDataAgent''" using e by (simp add: duplicate_edge_builder_def)
  have 1: "(''CustomerDataAgent'', ''RiskAnalyserAgent'') \<in> ?E"
    by (simp add: duplicate_edge_builder_def)
  have 2: "(''RiskAnalyserAgent'', ''FraudAlertAgent'') \<in> ?E"
    by (simp add: duplicate_edge_builder_def)
  have r1: "(''CustomerDataAgent'', ''RiskAnalyserAgent'') \<in> ?E\<^sup>*"
    using 1 by (rule r_into_rtrancl)
  have r2: "(''CustomerDataAgent'', ''FraudAlertAgent'') \<in> ?E\<^sup>*"
    using r1 2 by (rule rtrancl_into_rtrancl)
  have r0: "(''CustomerDataAgent'', ''CustomerDataAgent'') \<in> ?E\<^sup>*"
    by (rule rtrancl_refl)
  from n have "n = ''CustomerDataAgent'' \<or> n = ''RiskAnalyserAgent'' \<or> n = ''FraudAlertAgent''"
    by (simp add: duplicate_edge_builder_def)
  then show False using u r0 r1 r2 unfolding e_eq by blast
qed

subsection \<open>A Run of a graph with a cycle need not end\<close>

lemma loop_builds: "build_chain loop_calls = Inr loop_graph"
  by (simp add: build_chain_def loop_calls_def loop_graph_def WorkflowBuilder_def build_def
      endpoints_def reachable_from_def reach_step_def duplicates_def)

lemma looping_start: "looping (start (new_run loop_graph (Req demo_request)))"
  by (simp add: looping_def start_def new_run_def loop_graph_def)

lemma looping_pending: "looping r \<Longrightarrow> pending r"
  by (simp add: looping_def pending_def)

lemma looping_dispatch:
  assumes "looping r"
  shows "looping (dispatch loop_graph r)"
proof -
  from assms consider "map_of (r_instances r) ''Loop'' = None"
    | "map_of (r_instances r) ''Loop'' = Some forwarding_stage"
    by (auto simp: looping_def)
  then show ?thesis
  proof cases
    case 1
    then show ?thesis using assms
      by (simp add: looping_def dispatch_def loop_graph_def successors_def forwarding_stage_def
          Let_def map_add_def)
  next
    case 2
    then show ?thesis using assms
      by (simp add: looping_def dispatch_def loop_graph_def successors_def forwarding_stage_def
          Let_def)
  qed
qed

lemma run_loop_looping: "looping r \<Longrightarrow> run_loop n loop_graph r = None"
proof (induction n arbitrary: r)
  case 0
  then show ?case using looping_pending by simp
next
  case (Suc n)
  from Suc.IH[OF looping_dispatch[OF Suc.prems]] looping_pending[OF Suc.prems]
  show ?case by simp
qed

lemma loop_never_ends: "run_stream n loop_graph (Req demo_request) = None"
  using run_loop_looping[OF looping_start] by (simp add: run_stream_def run_def)

section \<open>The claims\<close>

text \<open>
  C1, as amended. Every Run of a graph without cycles delivers exactly one terminal event
  to its consumer: \<open>FAILED\<close> with no output event, or \<open>COMPLETED\<close> immediately followed by
  exactly one output event that carries the terminal payload; never none and never more
  than one. So the consuming loop of \<open>run_fraud_detection_workflow\<close> sees at most one
  output event and returns its payload, or \<open>None\<close> after a Run that failed. Such a Run
  ends within the fuel given, and with any other fuel that lets it end the stream is the
  same. A Run of a graph with a cycle need not end, and then it delivers no terminal
  event. A Run of the fraud detection chain ends in three rounds: it completes and the
  function returns the alert response of the last stage, unless the run of an agent
  raised outside \<open>Exception\<close>, when the Run fails and the function returns \<open>None\<close>.
\<close>

theorem event_stream_has_exactly_one_terminal_event:
  assumes "descending g rank"
  shows "(\<exists>events.
            run_stream (Suc (length (g_edges g)) ^ rank (g_entry g)) g initial = Some events
          \<and> ((events = [WorkflowStatusEvent RUNNING, WorkflowStatusEvent FAILED]
                \<and> consume events None = None)
              \<or> (\<exists>p. events = [WorkflowStatusEvent RUNNING, WorkflowStatusEvent COMPLETED,
                                WorkflowOutputEvent p]
                    \<and> consume events None = Some p))
          \<and> length (filter is_terminal events) = 1
          \<and> length (outputs events) \<le> 1
          \<and> (\<forall>n other. run_stream n g initial = Some other \<longrightarrow> other = events))
       \<and> (\<exists>events.
            run_stream (Suc (Suc (Suc k))) (fraud_detection_graph a b c)
              (Req \<lparr>req_transaction_id = transaction_id, req_customer_id = customer_id,
                    req_amount = amount, req_currency = currency\<rparr>) = Some events
          \<and> ((events = [WorkflowStatusEvent RUNNING, WorkflowStatusEvent FAILED]
                \<and> run_fraud_detection_workflow
                      (run_stream (Suc (Suc (Suc k))) (fraud_detection_graph a b c))
                      transaction_id customer_id amount currency = Some None)
              \<or> (\<exists>fa. events = [WorkflowStatusEvent RUNNING, WorkflowStatusEvent COMPLETED,
                                 WorkflowOutputEvent (Alert fa)]
                    \<and> run_fraud_detection_workflow
                          (run_stream (Suc (Suc (Suc k))) (fraud_detection_graph a b c))
                          transaction_id customer_id amount currency = Some (Some (Alert fa)))))
       \<and> (catchable a \<and> catchable b \<and> catchable c \<longrightarrow>
            (\<exists>fa. run_fraud_detection_workflow
                     (run_stream (Suc (Suc (Suc k))) (fraud_detection_graph a b c))
                     transaction_id customer_id amount currency = Some (Some (Alert fa))))"
proof (intro conjI)
  from run_ends[OF assms, of initial] obtain r where
    r: "run (Suc (length (g_edges g)) ^ rank (g_entry g)) g initial = Some r" by blast
  let ?events = "r_events r"
  have s: "run_stream (Suc (length (g_edges g)) ^ rank (g_entry g)) g initial = Some ?events"
    using r by (simp add: run_stream_def)
  from run_stream_ends[OF s]
  have shape: "?events = [WorkflowStatusEvent RUNNING, WorkflowStatusEvent FAILED]
         \<or> (\<exists>p. ?events = [WorkflowStatusEvent RUNNING, WorkflowStatusEvent COMPLETED,
                             WorkflowOutputEvent p])" .
  then have c: "(?events = [WorkflowStatusEvent RUNNING, WorkflowStatusEvent FAILED]
                \<and> consume ?events None = None)
              \<or> (\<exists>p. ?events = [WorkflowStatusEvent RUNNING, WorkflowStatusEvent COMPLETED,
                                WorkflowOutputEvent p]
                    \<and> consume ?events None = Some p)"
    by auto
  have t: "length (filter is_terminal ?events) = 1" using shape by (auto simp: is_terminal_def)
  have o: "length (outputs ?events) \<le> 1" using shape by (auto simp: outputs_def)
  have u: "\<forall>n other. run_stream n g initial = Some other \<longrightarrow> other = ?events"
    using run_stream_fuel_independent[OF _ s] by blast
  show "\<exists>events.
            run_stream (Suc (length (g_edges g)) ^ rank (g_entry g)) g initial = Some events
          \<and> ((events = [WorkflowStatusEvent RUNNING, WorkflowStatusEvent FAILED]
                \<and> consume events None = None)
              \<or> (\<exists>p. events = [WorkflowStatusEvent RUNNING, WorkflowStatusEvent COMPLETED,
                                WorkflowOutputEvent p]
                    \<and> consume events None = Some p))
          \<and> length (filter is_terminal events) = 1
          \<and> length (outputs events) \<le> 1
          \<and> (\<forall>n other. run_stream n g initial = Some other \<longrightarrow> other = events)"
    using s c t o u by blast
next
  let ?request = "\<lparr>req_transaction_id = transaction_id, req_customer_id = customer_id,
                    req_amount = amount, req_currency = currency\<rparr>"
  from fraud_stream[of k a b c ?request] obtain events where
    e: "run_stream (Suc (Suc (Suc k))) (fraud_detection_graph a b c) (Req ?request) = Some events"
    and d: "events = [WorkflowStatusEvent RUNNING, WorkflowStatusEvent FAILED]
        \<or> (\<exists>fa. events = [WorkflowStatusEvent RUNNING, WorkflowStatusEvent COMPLETED,
                             WorkflowOutputEvent (Alert fa)])"
    by blast
  have f: "run_fraud_detection_workflow
             (run_stream (Suc (Suc (Suc k))) (fraud_detection_graph a b c))
             transaction_id customer_id amount currency = Some (consume events None)"
    using e by (simp add: run_fraud_detection_workflow_def)
  from d have "(events = [WorkflowStatusEvent RUNNING, WorkflowStatusEvent FAILED]
                \<and> consume events None = None)
              \<or> (\<exists>fa. events = [WorkflowStatusEvent RUNNING, WorkflowStatusEvent COMPLETED,
                                 WorkflowOutputEvent (Alert fa)]
                    \<and> consume events None = Some (Alert fa))"
    by auto
  then show "\<exists>events.
            run_stream (Suc (Suc (Suc k))) (fraud_detection_graph a b c) (Req ?request)
              = Some events
          \<and> ((events = [WorkflowStatusEvent RUNNING, WorkflowStatusEvent FAILED]
                \<and> run_fraud_detection_workflow
                      (run_stream (Suc (Suc (Suc k))) (fraud_detection_graph a b c))
                      transaction_id customer_id amount currency = Some None)
              \<or> (\<exists>fa. events = [WorkflowStatusEvent RUNNING, WorkflowStatusEvent COMPLETED,
                                 WorkflowOutputEvent (Alert fa)]
                    \<and> run_fraud_detection_workflow
                          (run_stream (Suc (Suc (Suc k))) (fraud_detection_graph a b c))
                          transaction_id customer_id amount currency = Some (Some (Alert fa))))"
    using e unfolding f by auto
next
  let ?request = "\<lparr>req_transaction_id = transaction_id, req_customer_id = customer_id,
                    req_amount = amount, req_currency = currency\<rparr>"
  show "catchable a \<and> catchable b \<and> catchable c \<longrightarrow>
            (\<exists>fa. run_fraud_detection_workflow
                     (run_stream (Suc (Suc (Suc k))) (fraud_detection_graph a b c))
                     transaction_id customer_id amount currency = Some (Some (Alert fa)))"
  proof
    assume all: "catchable a \<and> catchable b \<and> catchable c"
    then have "catchable a" "catchable b" "catchable c" by simp_all
    from fraud_stream_completes[OF this, of k ?request] obtain fa where
      "run_stream (Suc (Suc (Suc k))) (fraud_detection_graph a b c) (Req ?request)
         = Some [WorkflowStatusEvent RUNNING, WorkflowStatusEvent COMPLETED,
                 WorkflowOutputEvent (Alert fa)]" by blast
    then have "run_fraud_detection_workflow
                 (run_stream (Suc (Suc (Suc k))) (fraud_detection_graph a b c))
                 transaction_id customer_id amount currency = Some (Some (Alert fa))"
      by (simp add: run_fraud_detection_workflow_def)
    then show "\<exists>fa. run_fraud_detection_workflow
                     (run_stream (Suc (Suc (Suc k))) (fraud_detection_graph a b c))
                     transaction_id customer_id amount currency = Some (Some (Alert fa))" ..
  qed
qed

theorem event_stream_has_exactly_one_terminal_event_witness:
  "descending demo_graph chain_rank
   \<and> run_stream 9 demo_graph (Req demo_request)
       = Some [WorkflowStatusEvent RUNNING, WorkflowStatusEvent COMPLETED,
               WorkflowOutputEvent (Alert demo_alert)]
   \<and> length (filter is_terminal
        [WorkflowStatusEvent RUNNING, WorkflowStatusEvent COMPLETED,
         WorkflowOutputEvent (Alert demo_alert)]) = 1
   \<and> consume [WorkflowStatusEvent RUNNING, WorkflowStatusEvent COMPLETED,
               WorkflowOutputEvent (Alert demo_alert)] None = Some (Alert demo_alert)"
proof -
  have e: "run_stream 9 demo_graph (Req demo_request)
       = Some [WorkflowStatusEvent RUNNING, WorkflowStatusEvent COMPLETED,
               WorkflowOutputEvent (Alert demo_alert)]"
    using demo_run by (simp add: run_stream_def)
  from event_stream_has_exactly_one_terminal_event[OF demo_descending, of "Req demo_request",
      THEN conjunct1, unfolded demo_fuel]
  obtain events where
    "run_stream 9 demo_graph (Req demo_request) = Some events"
    "length (filter is_terminal events) = 1"
    "(events = [WorkflowStatusEvent RUNNING, WorkflowStatusEvent FAILED]
        \<and> consume events None = None)
     \<or> (\<exists>p. events = [WorkflowStatusEvent RUNNING, WorkflowStatusEvent COMPLETED,
                        WorkflowOutputEvent p]
            \<and> consume events None = Some p)"
    by blast
  then show ?thesis using e demo_descending by auto
qed

theorem cyclic_run_never_ends_counterexample:
  "build_chain loop_calls = Inr loop_graph
   \<and> (\<forall>n. run_stream n loop_graph (Req demo_request) = None)"
  using loop_builds loop_never_ends by simp

text \<open>
  C2, as amended. Every invocation of a stage handler of the fraud detection workflow in
  which the run of the agent returns, or raises an \<open>Exception\<close>, makes exactly one call on
  its context. On the normal path the customer data stage and the risk analyser each
  forward exactly one successor envelope with status \<open>SUCCESS\<close>, and the terminal stage
  yields exactly one output. On the exception path the stage absorbs the failure and
  forwards exactly one envelope with status \<open>ERROR\<close> whose message is \<open>Error: \<close> followed
  by the text of the exception (the terminal stage yields it). Never no call, never
  two. An exception outside \<open>Exception\<close>, such as \<open>asyncio.CancelledError\<close>, is not caught:
  it leaves the handler, which has made no call.
\<close>

theorem stage_handlers_call_context_once:
  "(case agent self1 [user (customer_prompt request)] of
      Response messages \<Rightarrow>
        (\<exists>cd. CustomerDataAgentExecutor_handle self1 request = Returned [send_message (Cust cd)]
           \<and> cd_status cd = ''SUCCESS'' \<and> cd_analysis cd = last_text messages)
    | RaisesException e \<Rightarrow>
        (\<exists>cd. CustomerDataAgentExecutor_handle self1 request = Returned [send_message (Cust cd)]
           \<and> cd_status cd = ''ERROR'' \<and> cd_analysis cd = ''Error: '' @ e)
    | RaisesBaseException e \<Rightarrow> CustomerDataAgentExecutor_handle self1 request = Raised e)
   \<and> (case agent self2 [user (risk_prompt customer_response)] of
      Response messages \<Rightarrow>
        (\<exists>ra. RiskAnalyserAgentExecutor_handle self2 customer_response =
                 Returned [send_message (Risk ra)]
           \<and> ra_status ra = ''SUCCESS'' \<and> ra_risk_analysis ra = last_text messages)
    | RaisesException e \<Rightarrow>
        (\<exists>ra. RiskAnalyserAgentExecutor_handle self2 customer_response =
                 Returned [send_message (Risk ra)]
           \<and> ra_status ra = ''ERROR'' \<and> ra_risk_analysis ra = ''Error: '' @ e)
    | RaisesBaseException e \<Rightarrow>
        RiskAnalyserAgentExecutor_handle self2 customer_response = Raised e)
   \<and> (case agent self3 [user (fraud_prompt risk_response)] of
      Response messages \<Rightarrow>
        (\<exists>fa. FraudAlertAgentExecutor_handle self3 risk_response =
                 Returned [yield_output (Alert fa)]
           \<and> fa_workflow_status fa = ''SUCCESS'' \<and> fa_alert_response fa = last_text messages)
    | RaisesException e \<Rightarrow>
        (\<exists>fa. FraudAlertAgentExecutor_handle self3 risk_response =
                 Returned [yield_output (Alert fa)]
           \<and> fa_workflow_status fa = ''ERROR'' \<and> fa_alert_response fa = ''Error: '' @ e)
    | RaisesBaseException e \<Rightarrow>
        FraudAlertAgentExecutor_handle self3 risk_response = Raised e)"
proof (intro conjI)
  show "case agent self1 [user (customer_prompt request)] of
      Response messages \<Rightarrow>
        (\<exists>cd. CustomerDataAgentExecutor_handle self1 request = Returned [send_message (Cust cd)]
           \<and> cd_status cd = ''SUCCESS'' \<and> cd_analysis cd = last_text messages)
    | RaisesException e \<Rightarrow>
        (\<exists>cd. CustomerDataAgentExecutor_handle self1 request = Returned [send_message (Cust cd)]
           \<and> cd_status cd = ''ERROR'' \<and> cd_analysis cd = ''Error: '' @ e)
    | RaisesBaseException e \<Rightarrow> CustomerDataAgentExecutor_handle self1 request = Raised e"
    unfolding customer_handle_cases
    by (cases "agent self1 [user (customer_prompt request)]") simp_all
  show "case agent self2 [user (risk_prompt customer_response)] of
      Response messages \<Rightarrow>
        (\<exists>ra. RiskAnalyserAgentExecutor_handle self2 customer_response =
                 Returned [send_message (Risk ra)]
           \<and> ra_status ra = ''SUCCESS'' \<and> ra_risk_analysis ra = last_text messages)
    | RaisesException e \<Rightarrow>
        (\<exists>ra. RiskAnalyserAgentExecutor_handle self2 customer_response =
                 Returned [send_message (Risk ra)]
           \<and> ra_status ra = ''ERROR'' \<and> ra_risk_analysis ra = ''Error: '' @ e)
    | RaisesBaseException e \<Rightarrow>
        RiskAnalyserAgentExecutor_handle self2 customer_response = Raised e"
    by (rule risk_handle_cases)
  show "case agent self3 [user (fraud_prompt risk_response)] of
      Response messages \<Rightarrow>
        (\<exists>fa. FraudAlertAgentExecutor_handle self3 risk_response =
                 Returned [yield_output (Alert fa)]
           \<and> fa_workflow_status fa = ''SUCCESS'' \<and> fa_alert_response fa = last_text messages)
    | RaisesException e \<Rightarrow>
        (\<exists>fa. FraudAlertAgentExecutor_handle self3 risk_response =
                 Returned [yield_output (Alert fa)]
           \<and> fa_workflow_status fa = ''ERROR'' \<and> fa_alert_response fa = ''Error: '' @ e)
    | RaisesBaseException e \<Rightarrow>
        FraudAlertAgentExecutor_handle self3 risk_response = Raised e"
    unfolding fraud_handle_cases
    by (cases "agent self3 [user (fraud_prompt risk_response)]") simp_all
qed

theorem stage_handlers_call_context_once_witness:
  "(\<exists>cd. CustomerDataAgentExecutor_handle
            (executor_of ''CustomerDataAgent'' (raising ''connection reset'')) demo_request
          = Returned [send_message (Cust cd)]
        \<and> cd_status cd = ''ERROR'' \<and> cd_analysis cd = ''Error: connection reset'')
   \<and> (\<exists>ra. RiskAnalyserAgentExecutor_handle
            (executor_of ''RiskAnalyserAgent'' (raising ''connection reset'')) demo_customer_response
          = Returned [send_message (Risk ra)]
        \<and> ra_status ra = ''ERROR'' \<and> ra_risk_analysis ra = ''Error: connection reset'')"
  using stage_handlers_call_context_once
    [of "executor_of ''CustomerDataAgent'' (raising ''connection reset'')" demo_request
        "executor_of ''RiskAnalyserAgent'' (raising ''connection reset'')" demo_customer_response]
  by (simp add: executor_of_def raising_def)

theorem cancelled_handler_makes_no_call_counterexample:
  "CustomerDataAgentExecutor_handle (executor_of ''CustomerDataAgent'' cancelled) demo_request
   = Raised ''CancelledError''"
  by (simp add: CustomerDataAgentExecutor_handle_def executor_of_def cancelled_def)

text \<open>
  C3, as amended. Every stage of the sequential demo forwards the history it received,
  unchanged, followed by the messages of its agent's response, which are one or more.
  So when every stage ran, the terminal output is the initial input followed by the
  three responses, and its length is the length of the initial input plus the number of
  messages the stages added: at least the number of stages plus the initial input, and
  equal to it only when every response is a single message.
\<close>

theorem sequential_history_accumulates:
  "sequential_chain researcher writer reviewer task = Some final \<longleftrightarrow>
     (\<exists>c1 c2 c3.
        agent researcher (history_of task) = Response c1 \<and> c1 \<noteq> []
      \<and> agent writer (history_of task @ c1) = Response c2 \<and> c2 \<noteq> []
      \<and> agent reviewer (history_of task @ c1 @ c2) = Response c3 \<and> c3 \<noteq> []
      \<and> ResearcherAgentV2Executor_handle researcher task =
          Returned [send_message (Messages (history_of task @ c1))]
      \<and> WriterAgentV2Executor_handle writer (history_of task @ c1) =
          Returned [send_message (Messages ((history_of task @ c1) @ c2))]
      \<and> ReviewerAgentV2Executor_handle reviewer ((history_of task @ c1) @ c2) =
          Returned [yield_output (Messages (((history_of task @ c1) @ c2) @ c3))]
      \<and> final = ((history_of task @ c1) @ c2) @ c3
      \<and> length final = length (history_of task) + length c1 + length c2 + length c3
      \<and> length final \<ge> 3 + length (history_of task))"
  unfolding sequential_chain_def researcher_handle_cases WriterAgentV2Executor_handle_def
    ReviewerAgentV2Executor_handle_def
  by (auto split: agent_outcome.splits if_splits simp: Suc_le_eq numeral_3_eq_3 neq_Nil_conv)

theorem sequential_history_accumulates_witness:
  "sequential_chain
     (executor_of ''ResearcherAgentV2'' (replying [assistant ''research notes'']))
     (executor_of ''WriterAgentV2'' (replying [assistant ''article'']))
     (executor_of ''ReviewerAgentV2'' (replying [assistant ''review'']))
     (Message (user ''Research and write''))
   = Some [user ''Research and write'', assistant ''research notes'', assistant ''article'',
           assistant ''review'']"
  unfolding sequential_history_accumulates
  by (simp add: executor_of_def replying_def history_of_def ResearcherAgentV2Executor_handle_def
      WriterAgentV2Executor_handle_def ReviewerAgentV2Executor_handle_def assistant_def user_def)

theorem sequential_history_length_counterexample:
  "map_option length (sequential_chain
     (executor_of ''ResearcherAgentV2''
        (replying [assistant ''search results'', assistant ''research notes'']))
     (executor_of ''WriterAgentV2'' (replying [assistant ''article'']))
     (executor_of ''ReviewerAgentV2'' (replying [assistant ''review'']))
     (Message (user ''Research and write''))) = Some 5
   \<and> length (history_of (Message (user ''Research and write''))) = 1
   \<and> (5::nat) \<noteq> 3 + 1"
  by (simp add: sequential_chain_def ResearcherAgentV2Executor_handle_def
      WriterAgentV2Executor_handle_def ReviewerAgentV2Executor_handle_def executor_of_def
      replying_def history_of_def)

text \<open>
  C4, as amended. In every Run the handlers are invoked in the order of the edges: the
  first invocation is the entry stage's, and every later invocation of a stage comes
  strictly after a stage with an edge to it emitted its successor envelope. For the two
  three-stage chains of the repository the order is the linear one, with at most one
  invocation per stage. A Run of either chain that completes has invoked each of its
  three stages exactly once, in the order of the chain; a Run that fails has stopped at
  the stage whose handler raised, and the stages after that one were not invoked. The
  sequential demo fails as soon as the run of an agent raises. The fraud detection chain
  fails only when the run of an agent raises outside \<open>Exception\<close>; its stages absorb
  every \<open>Exception\<close>, and then the Run completes.
\<close>

theorem linear_chain_dispatch_order:
  "(run n g initial = Some r \<longrightarrow> dispatch_order g (r_log r))
   \<and> (\<exists>r1. run (Suc (Suc (Suc k))) (fraud_detection_graph a b c) (Req request) = Some r1
          \<and> distinct (invocations (r_log r1))
          \<and> (r_state r1 = COMPLETED \<and> r_log r1 = fraud_log
                \<and> invocations (r_log r1) = [''CustomerDataAgent'', ''RiskAnalyserAgent'', ''FraudAlertAgent'']
              \<or> r_state r1 = FAILED
                \<and> (r_log r1 = fraud_log1 \<or> r_log r1 = fraud_log2 \<or> r_log r1 = fraud_log))
          \<and> (catchable a \<and> catchable b \<and> catchable c \<longrightarrow> r_state r1 = COMPLETED))
   \<and> (\<exists>r2. run (Suc (Suc (Suc k))) (sequential_graph researcher writer reviewer) task = Some r2
          \<and> distinct (invocations (r_log r2))
          \<and> (r_state r2 = COMPLETED \<and> r_log r2 = seq_log3
                \<and> invocations (r_log r2) = [''ResearcherAgentV2'', ''WriterAgentV2'', ''ReviewerAgentV2'']
              \<or> r_state r2 = FAILED
                \<and> (r_log r2 = seq_log1 \<or> r_log r2 = seq_log2 \<or> r_log r2 = seq_log3)))"
proof (intro conjI)
  show "run n g initial = Some r \<longrightarrow> dispatch_order g (r_log r)"
    by (simp add: run_dispatch_order)
  from fraud_run[of k a b c request] obtain r1 where
    r1: "run (Suc (Suc (Suc k))) (fraud_detection_graph a b c) (Req request) = Some r1"
    and c1: "(\<exists>fa. r_state r1 = COMPLETED \<and> r_log r1 = fraud_log
                \<and> r_events r1 = [WorkflowStatusEvent RUNNING, WorkflowStatusEvent COMPLETED,
                                  WorkflowOutputEvent (Alert fa)])
       \<or> (r_state r1 = FAILED
            \<and> (r_log r1 = fraud_log1 \<or> r_log r1 = fraud_log2 \<or> r_log r1 = fraud_log)
            \<and> r_events r1 = [WorkflowStatusEvent RUNNING, WorkflowStatusEvent FAILED])"
    by blast
  have j: "invocations fraud_log1 = [''CustomerDataAgent'']"
    "invocations fraud_log2 = [''CustomerDataAgent'', ''RiskAnalyserAgent'']"
    "invocations fraud_log = [''CustomerDataAgent'', ''RiskAnalyserAgent'', ''FraudAlertAgent'']"
    by (simp_all add: invocations_def fraud_log1_def fraud_log2_def fraud_log_def)
  have d1: "distinct (invocations (r_log r1))" using c1 j by auto
  have s1: "r_state r1 = COMPLETED \<and> r_log r1 = fraud_log
                \<and> invocations (r_log r1) = [''CustomerDataAgent'', ''RiskAnalyserAgent'', ''FraudAlertAgent'']
              \<or> r_state r1 = FAILED
                \<and> (r_log r1 = fraud_log1 \<or> r_log r1 = fraud_log2 \<or> r_log r1 = fraud_log)"
    using c1 j by auto
  have k1: "catchable a \<and> catchable b \<and> catchable c \<longrightarrow> r_state r1 = COMPLETED"
  proof
    assume all: "catchable a \<and> catchable b \<and> catchable c"
    then have "catchable a" "catchable b" "catchable c" by simp_all
    from fraud_run_completes[OF this, of k request] r1
    show "r_state r1 = COMPLETED" by auto
  qed
  show "\<exists>r1. run (Suc (Suc (Suc k))) (fraud_detection_graph a b c) (Req request) = Some r1
          \<and> distinct (invocations (r_log r1))
          \<and> (r_state r1 = COMPLETED \<and> r_log r1 = fraud_log
                \<and> invocations (r_log r1) = [''CustomerDataAgent'', ''RiskAnalyserAgent'', ''FraudAlertAgent'']
              \<or> r_state r1 = FAILED
                \<and> (r_log r1 = fraud_log1 \<or> r_log r1 = fraud_log2 \<or> r_log r1 = fraud_log))
          \<and> (catchable a \<and> catchable b \<and> catchable c \<longrightarrow> r_state r1 = COMPLETED)"
    using r1 d1 s1 k1 by blast
  from sequential_run[of k researcher writer reviewer task] obtain r2 where
    r2: "run (Suc (Suc (Suc k))) (sequential_graph researcher writer reviewer) task = Some r2"
    and cases: "r_state r2 = COMPLETED \<and> r_log r2 = seq_log3
       \<or> r_state r2 = FAILED \<and> (r_log r2 = seq_log1 \<or> r_log r2 = seq_log2 \<or> r_log r2 = seq_log3)"
    by blast
  have i: "invocations seq_log1 = [''ResearcherAgentV2'']"
    "invocations seq_log2 = [''ResearcherAgentV2'', ''WriterAgentV2'']"
    "invocations seq_log3 = [''ResearcherAgentV2'', ''WriterAgentV2'', ''ReviewerAgentV2'']"
    by (simp_all add: invocations_def seq_log1_def seq_log2_def seq_log3_def)
  have "distinct (invocations (r_log r2))" using cases i by auto
  then show "\<exists>r2. run (Suc (Suc (Suc k))) (sequential_graph researcher writer reviewer) task = Some r2
          \<and> distinct (invocations (r_log r2))
          \<and> (r_state r2 = COMPLETED \<and> r_log r2 = seq_log3
                \<and> invocations (r_log r2) = [''ResearcherAgentV2'', ''WriterAgentV2'', ''ReviewerAgentV2'']
              \<or> r_state r2 = FAILED
                \<and> (r_log r2 = seq_log1 \<or> r_log r2 = seq_log2 \<or> r_log r2 = seq_log3))"
    using r2 cases i by auto
qed

theorem linear_chain_dispatch_order_witness:
  "map_option r_log (run 9 demo_graph (Req demo_request)) = Some fraud_log
   \<and> dispatch_order demo_graph fraud_log"
proof -
  from linear_chain_dispatch_order[THEN conjunct1, rule_format, OF demo_run]
  have "dispatch_order demo_graph fraud_log" by simp
  then show ?thesis using demo_run by simp
qed

theorem sequential_chain_stops_at_fault_counterexample:
  "map_option (\<lambda>r. (r_state r, invocations (r_log r)))
     (run 3 (sequential_graph (raising ''timeout'') (replying [assistant ''article''])
               (replying [assistant ''review'']))
        (Message (user ''Research and write'')))
   = Some (FAILED, [''ResearcherAgentV2''])"
  by (simp add: numeral_3_eq_3 run_unfold ResearcherAgentV2Executor_handle_def raising_def
      invocations_def)

text \<open>
  C5, as amended. \<open>build()\<close> fails if and only if the graph under construction has an
  unregistered edge endpoint, no entry stage, an unreachable stage, or a duplicate edge;
  for every other graph it succeeds. The two three-stage chains of the repository
  (three registered stages with distinct names, two edges in a chain, the entry at the
  head) build, and give the graphs stated.
\<close>

theorem build_fails_iff_graph_defect:
  "(isl (build b) \<longleftrightarrow>
      unregistered_endpoint b \<or> no_entry b \<or> unreachable_stage_exists b
      \<or> \<not> distinct (b_edges b))
   \<and> build_chain (fraud_detection_calls customer_data_agent risk_analyser_agent fraud_alert_agent)
       = Inr (fraud_detection_graph customer_data_agent risk_analyser_agent fraud_alert_agent)
   \<and> build_chain (sequential_calls researcher writer reviewer)
       = Inr (sequential_graph researcher writer reviewer)"
  using build_fails_iff[of b] fraud_detection_builds sequential_builds by blast

theorem build_fails_iff_graph_defect_witness:
  "isl (build duplicate_edge_builder) \<and> \<not> distinct (b_edges duplicate_edge_builder)
   \<and> build_chain (fraud_detection_calls demo_customer_agent demo_risk_agent demo_alert_agent)
       = Inr demo_graph"
  using build_fails_iff_graph_defect
    [of duplicate_edge_builder demo_customer_agent demo_risk_agent demo_alert_agent]
  by (simp add: duplicate_edge_builder_def demo_graph_def)

theorem build_duplicate_edge_counterexample:
  "calls duplicate_edge_calls WorkflowBuilder = Inr duplicate_edge_builder
   \<and> build duplicate_edge_builder
       = Inl (InvalidGraphError [duplicate_edge ''CustomerDataAgent'' ''RiskAnalyserAgent''])
   \<and> \<not> unregistered_endpoint duplicate_edge_builder
   \<and> \<not> no_entry duplicate_edge_builder
   \<and> \<not> unreachable_stage_exists duplicate_edge_builder"
proof -
  have "\<not> unregistered_endpoint duplicate_edge_builder"
    by (simp add: unregistered_endpoint_def duplicate_edge_builder_def)
  moreover have "\<not> no_entry duplicate_edge_builder"
    by (simp add: no_entry_def duplicate_edge_builder_def)
  ultimately show ?thesis
    using duplicate_edge_builder_calls duplicate_edge_builder_fails
      duplicate_edge_builder_reachable by blast
qed

text \<open>
  C8. On the success path of \<open>RiskAnalyserAgentExecutor.handle\<close> (the agent returned, with
  whatever text), the response it emits has status \<open>SUCCESS\<close> and a risk score between 0
  and 100: the score the patterns parse, accepted only between 0 and 100, or else the
  fallback's 85, 55 or 25 for a level word, or the default 50. Its risk level is \<open>HIGH\<close>
  exactly when the score is at least 75, \<open>MEDIUM\<close> exactly when it is at least 40 and
  below 75, and \<open>LOW\<close> otherwise; its recommendation is \<open>BLOCK\<close> exactly for \<open>HIGH\<close>,
  \<open>INVESTIGATE\<close> exactly for \<open>MEDIUM\<close> and \<open>ALLOW\<close> exactly for \<open>LOW\<close>.
\<close>

theorem risk_analyser_success_response:
  assumes "agent self [user (risk_prompt customer_response)] = Response messages"
  shows "\<exists>ra. RiskAnalyserAgentExecutor_handle self customer_response =
                 Returned [send_message (Risk ra)]
          \<and> ra_status ra = ''SUCCESS''
          \<and> 0 \<le> ra_risk_score ra \<and> ra_risk_score ra \<le> 100
          \<and> (parse_score patterns (last_text messages) = Inr (Some (ra_risk_score ra))
             \<or> parse_score patterns (last_text messages) = Inr None
               \<and> ra_risk_score ra = fallback_score (last_text messages)
               \<and> ra_risk_score ra \<in> {85, 55, 25, 50})
          \<and> (ra_risk_level ra = ''HIGH'' \<longleftrightarrow> ra_risk_score ra \<ge> 75)
          \<and> (ra_risk_level ra = ''MEDIUM'' \<longleftrightarrow> 40 \<le> ra_risk_score ra \<and> ra_risk_score ra < 75)
          \<and> (ra_risk_level ra = ''LOW'' \<longleftrightarrow> ra_risk_score ra < 40)
          \<and> (ra_recommendation ra = ''BLOCK'' \<longleftrightarrow> ra_risk_level ra = ''HIGH'')
          \<and> (ra_recommendation ra = ''INVESTIGATE'' \<longleftrightarrow> ra_risk_level ra = ''MEDIUM'')
          \<and> (ra_recommendation ra = ''ALLOW'' \<longleftrightarrow> ra_risk_level ra = ''LOW'')"
proof -
  from risk_handle_success[OF assms] obtain score where
    h: "RiskAnalyserAgentExecutor_handle self customer_response =
          Returned [send_message (Risk (risk_success_response customer_response (last_text messages) score))]"
    and r: "0 \<le> score" "score \<le> 100"
    and p: "parse_score patterns (last_text messages) = Inr (Some score)
             \<or> parse_score patterns (last_text messages) = Inr None
               \<and> score = fallback_score (last_text messages)"
    by blast
  let ?ra = "risk_success_response customer_response (last_text messages) score"
  have f: "score = fallback_score (last_text messages) \<Longrightarrow> score \<in> {85, 55, 25, 50}"
    using fallback_values by simp
  have "ra_status ?ra = ''SUCCESS''" "ra_risk_score ?ra = score"
    by (simp_all add: risk_success_response_def)
  moreover have "ra_risk_level ?ra = risk_level score"
    "ra_recommendation ?ra = recommendation (risk_level score)"
    by (simp_all add: risk_success_response_def)
  moreover have "(risk_level score = ''HIGH'' \<longleftrightarrow> score \<ge> 75)"
    "(risk_level score = ''MEDIUM'' \<longleftrightarrow> 40 \<le> score \<and> score < 75)"
    "(risk_level score = ''LOW'' \<longleftrightarrow> score < 40)"
    by (auto simp: risk_level_def)
  moreover have "(recommendation (risk_level score) = ''BLOCK'' \<longleftrightarrow> risk_level score = ''HIGH'')"
    "(recommendation (risk_level score) = ''INVESTIGATE'' \<longleftrightarrow> risk_level score = ''MEDIUM'')"
    "(recommendation (risk_level score) = ''ALLOW'' \<longleftrightarrow> risk_level score = ''LOW'')"
    by (auto simp: recommendation_def risk_level_def)
  ultimately show ?thesis using h r p f by (intro exI[of _ ?ra]) auto
qed

theorem risk_analyser_success_response_witness:
  "agent \<lparr>agent = demo_risk_agent, executor_id = ''RiskAnalyserAgent''\<rparr>
     [user (risk_prompt demo_customer_response)] = Response [assistant ''Risk Score: 82/100'']
   \<and> (\<exists>ra. RiskAnalyserAgentExecutor_handle
              \<lparr>agent = demo_risk_agent, executor_id = ''RiskAnalyserAgent''\<rparr>
              demo_customer_response = Returned [send_message (Risk ra)]
          \<and> ra_risk_score ra = 82 \<and> ra_risk_level ra = ''HIGH''
          \<and> ra_recommendation ra = ''BLOCK'')"
proof -
  let ?self = "\<lparr>agent = demo_risk_agent, executor_id = ''RiskAnalyserAgent''\<rparr>"
  have a: "agent ?self [user (risk_prompt demo_customer_response)]
             = Response [assistant ''Risk Score: 82/100'']"
    by (simp add: demo_risk_agent_def replying_def)
  have t: "last_text [assistant ''Risk Score: 82/100''] = ''Risk Score: 82/100''"
    by (simp add: last_text_def assistant_def)
  from risk_analyser_success_response[OF a] obtain ra where
    h: "RiskAnalyserAgentExecutor_handle ?self demo_customer_response
          = Returned [send_message (Risk ra)]"
    and p: "parse_score patterns (last_text [assistant ''Risk Score: 82/100''])
              = Inr (Some (ra_risk_score ra))
            \<or> parse_score patterns (last_text [assistant ''Risk Score: 82/100'']) = Inr None
              \<and> ra_risk_score ra = fallback_score (last_text [assistant ''Risk Score: 82/100''])
              \<and> ra_risk_score ra \<in> {85, 55, 25, 50}"
    and l: "ra_risk_level ra = ''HIGH'' \<longleftrightarrow> ra_risk_score ra \<ge> 75"
    and c: "ra_recommendation ra = ''BLOCK'' \<longleftrightarrow> ra_risk_level ra = ''HIGH''"
    by blast
  from p have s: "ra_risk_score ra = 82" unfolding t parse_demo by simp
  then have "ra_risk_level ra = ''HIGH''" using l by simp
  then show ?thesis using a h s c by blast
qed



text \<open>
  C10. \<open>run_fraud_detection_workflow\<close> returns the payload of the last output event it saw
  on the event stream, and returns \<open>None\<close> when the stream ends without an output event
  (a failed Run, for one), whatever its declared return type says.
\<close>

theorem run_fraud_detection_workflow_returns_last_output:
  "run_fraud_detection_workflow stream_of transaction_id customer_id amount currency =
     map_option (\<lambda>events. if outputs events = [] then None else Some (last (outputs events)))
       (stream_of (Req \<lparr>req_transaction_id = transaction_id,
            req_customer_id = customer_id, req_amount = amount, req_currency = currency\<rparr>))"
  by (simp add: run_fraud_detection_workflow_def consume_outputs)

theorem run_fraud_detection_workflow_returns_last_output_witness:
  "run_fraud_detection_workflow
     (\<lambda>initial. Some [WorkflowStatusEvent RUNNING, WorkflowStatusEvent FAILED])
     ''TX1001'' ''CUST1001'' None (Some ''USD'') = Some None
   \<and> run_fraud_detection_workflow
     (\<lambda>initial. Some [WorkflowStatusEvent RUNNING, WorkflowOutputEvent initial,
                       WorkflowOutputEvent (Alert demo_alert)])
     ''TX1001'' ''CUST1001'' None (Some ''USD'') = Some (Some (Alert demo_alert))"
  unfolding run_fraud_detection_workflow_returns_last_output
  by (simp add: outputs_def)

end
